theory Spec2Isabelle
  imports Main "HOL-Library.Finite_Map"
begin

section \<open>Data model of \<open>lru.go\<close>\<close>

text \<open>
  Time. A \<open>time.Duration\<close> is a signed count of nanoseconds and a \<open>time.Time\<close> is an
  instant; the cache only compares them (\<open><\<close>, \<open>Before\<close>) and adds a duration to the
  current instant. Both are integers here, an instant being its distance in nanoseconds
  from a fixed origin, and \<open>time.Now()\<close> is the argument \<open>now\<close> of the operations that
  read the clock.
\<close>

type_synonym Time = int
type_synonym Duration = int

definition Millisecond :: Duration where
  "Millisecond = 1000000"

definition Second :: Duration where
  "Second = 1000000000"

definition Minute :: Duration where
  "Minute = 60 * Second"

definition DefaultMaxLen :: int where
  "DefaultMaxLen = 10000"

definition DefaultCacheTime :: Duration where
  "DefaultCacheTime = Minute"

text \<open>
  \<open>type Value interface{}\<close>: a value of the interface type is \<open>nil\<close> (\<open>None\<close>) or holds
  a payload. Keys are values of any type with a decidable, reflexive equality (the keys a
  Go map accepts and finds again).
\<close>

type_synonym 'v Value = "'v option"

record ('k, 'v) listEntry =
  key :: "'k"
  "value" :: "'v Value"
  deadTime :: Time

text \<open>
  \<open>type OnEvicted func(key Key, value Value)\<close>: the callback acts on whatever lies
  outside the cache, the environment \<open>'w\<close>. A \<open>nil\<close> callback is \<open>None\<close>.
\<close>

type_synonym ('k, 'v, 'w) OnEvicted = "'k \<Rightarrow> 'v Value \<Rightarrow> 'w \<Rightarrow> 'w"

record ('k, 'v, 'w) Config =
  MaxLen :: int
  Callback :: "('k, 'v, 'w) OnEvicted option"
  CacheTime :: Duration

text \<open>
  \<open>type lruCache struct\<close>. \<open>maxLen\<close> is a Go \<open>int\<close>; the code only compares it with
  \<open>len(lru.hash)\<close>, so it is an integer here and the theorems hold for every value of it.
  The mutex is not modelled: every method holds it from entry to return, so the methods
  run one at a time, as the functions below do. A \<open>*list.Element\<close> is an address (a
  natural number);
  \<open>lst\<close> is the order of the elements in the linked list, front first; \<open>hash\<close> is the Go
  map from keys to element addresses; \<open>elems\<close> is the heap, holding for each allocated
  element the \<open>listEntry\<close> its \<open>Value\<close> field points to (an element that is unlinked
  stays there, as garbage does); \<open>nextElem\<close> is the next address the allocator hands
  out; \<open>world\<close> is the environment the callback acts on.
\<close>

record ('k, 'v, 'w) lruCache =
  maxLen :: int
  onEvicted :: "('k, 'v, 'w) OnEvicted option"
  lst :: "nat list"
  hash :: "('k, nat) fmap"
  cacheTime :: Duration
  elems :: "(nat, ('k, 'v) listEntry) fmap"
  nextElem :: nat
  world :: "'w"

subsection \<open>The operations of \<open>container/list\<close> the cache calls\<close>

text \<open>
  On the order of element addresses. \<open>MoveToFront\<close> and \<open>Remove\<close> leave the list alone
  when the element is not one of its elements (Go tests \<open>e.list == l\<close>); \<open>Back\<close> is \<open>nil\<close>
  on the empty list. \<open>Init\<close> empties the list; the elements it drops keep their list
  pointer in Go, but \<open>Close\<close> replaces the map in the same call, so the cache holds no
  handle to them afterwards, and by the invariant below every address the cache passes to
  \<open>MoveToFront\<close> or \<open>Remove\<close> is an element of the list.
\<close>

definition PushFront :: "nat \<Rightarrow> nat list \<Rightarrow> nat list" where
  "PushFront a xs = a # xs"

definition MoveToFront :: "nat \<Rightarrow> nat list \<Rightarrow> nat list" where
  "MoveToFront a xs = (if a \<in> set xs then a # remove1 a xs else xs)"

definition Remove :: "nat \<Rightarrow> nat list \<Rightarrow> nat list" where
  "Remove a xs = remove1 a xs"

definition Back :: "nat list \<Rightarrow> nat option" where
  "Back xs = (if xs = [] then None else Some (last xs))"

definition Init :: "nat list" where
  "Init = []"

section \<open>The cache\<close>

definition NewCacheWithConfig :: "('k, 'v, 'w) Config \<Rightarrow> 'w \<Rightarrow> ('k, 'v, 'w) lruCache" where
  "NewCacheWithConfig config w =
     \<lparr>maxLen = MaxLen config,
      onEvicted = Callback config,
      lst = [],
      hash = fmempty,
      cacheTime = (if CacheTime config < Millisecond then DefaultCacheTime else CacheTime config),
      elems = fmempty,
      nextElem = 0,
      world = w\<rparr>"

definition NewCache :: "'w \<Rightarrow> ('k, 'v, 'w) lruCache" where
  "NewCache w =
     NewCacheWithConfig \<lparr>MaxLen = DefaultMaxLen, Callback = None, CacheTime = DefaultCacheTime\<rparr> w"

text \<open>
  \<open>removeElem\<close>: nothing for \<open>nil\<close>; otherwise unlink the element, delete the key of its
  entry from the map and call the callback when there is one. (An address with no element
  behind it does not exist in Go; the model then only unlinks.)
\<close>

definition removeElem ::
  "('k, 'v, 'w) lruCache \<Rightarrow> nat option \<Rightarrow> ('k, 'v, 'w) lruCache" where
  "removeElem lru elem =
     (case elem of
        None \<Rightarrow> lru
      | Some a \<Rightarrow>
          (let lru1 = lru\<lparr>lst := Remove a (lst lru)\<rparr> in
           case fmlookup (elems lru1) a of
             None \<Rightarrow> lru1
           | Some entry \<Rightarrow>
               (let lru2 = lru1\<lparr>hash := fmdrop (key entry) (hash lru1)\<rparr> in
                case onEvicted lru2 of
                  None \<Rightarrow> lru2
                | Some f \<Rightarrow> lru2\<lparr>world := f (key entry) (value entry) (world lru2)\<rparr>)))"

text \<open>
  \<open>len(lru.hash)\<close>, and the methods. Where a method follows an element address into the
  heap, the model has a branch for an address with nothing behind it; Go has no such
  address, and by the invariant below no reachable state takes that branch.
\<close>

definition len_hash :: "('k, 'v, 'w) lruCache \<Rightarrow> int" where
  "len_hash lru = int (fcard (fmdom (hash lru)))"

definition lazyRemoveOldest :: "('k, 'v, 'w) lruCache \<Rightarrow> ('k, 'v, 'w) lruCache" where
  "lazyRemoveOldest lru =
     (if len_hash lru > maxLen lru then removeElem lru (Back (lst lru)) else lru)"

definition PutWithTimeout ::
  "('k, 'v, 'w) lruCache \<Rightarrow> 'k \<Rightarrow> 'v Value \<Rightarrow> Duration \<Rightarrow> Time \<Rightarrow> ('k, 'v, 'w) lruCache" where
  "PutWithTimeout lru k v t0 now =
     (let t = (if t0 < Second then Second else t0) in
      case fmlookup (hash lru) k of
        Some a \<Rightarrow>
          (let lru1 = lru\<lparr>lst := MoveToFront a (lst lru)\<rparr> in
           case fmlookup (elems lru1) a of
             None \<Rightarrow> lru1
           | Some entry \<Rightarrow>
               lru1\<lparr>elems := fmupd a (entry\<lparr>value := v, deadTime := now + t\<rparr>) (elems lru1)\<rparr>)
      | None \<Rightarrow>
          (let a = nextElem lru;
               lru1 = lru\<lparr>lst := PushFront a (lst lru),
                          elems := fmupd a \<lparr>key = k, value = v, deadTime = now + t\<rparr> (elems lru),
                          nextElem := Suc a\<rparr>;
               lru2 = lru1\<lparr>hash := fmupd k a (hash lru1)\<rparr>
           in lazyRemoveOldest lru2))"

definition Put ::
  "('k, 'v, 'w) lruCache \<Rightarrow> 'k \<Rightarrow> 'v Value \<Rightarrow> Time \<Rightarrow> ('k, 'v, 'w) lruCache" where
  "Put lru k v now = PutWithTimeout lru k v (cacheTime lru) now"

text \<open>\<open>Get\<close> returns the pair of Go results and the cache after the call.\<close>

definition Get ::
  "('k, 'v, 'w) lruCache \<Rightarrow> 'k \<Rightarrow> Time \<Rightarrow> ('v Value \<times> bool) \<times> ('k, 'v, 'w) lruCache" where
  "Get lru k now =
     (case fmlookup (hash lru) k of
        Some a \<Rightarrow>
          (case fmlookup (elems lru) a of
             None \<Rightarrow> ((None, False), lru)
           | Some entry \<Rightarrow>
               if deadTime entry < now then ((None, False), removeElem lru (Some a))
               else ((value entry, True), lru\<lparr>lst := MoveToFront a (lst lru)\<rparr>))
      | None \<Rightarrow> ((None, False), lru))"

definition Del :: "('k, 'v, 'w) lruCache \<Rightarrow> 'k \<Rightarrow> 'v Value \<times> ('k, 'v, 'w) lruCache" where
  "Del lru k =
     (case fmlookup (hash lru) k of
        Some a \<Rightarrow>
          (case fmlookup (elems lru) a of
             None \<Rightarrow> (None, lru)
           | Some entry \<Rightarrow> (value entry, removeElem lru (Some a)))
      | None \<Rightarrow> (None, lru))"

text \<open>\<open>Len\<close>: the map of a constructed cache is never \<open>nil\<close>, and \<open>len\<close> of it is its size.\<close>

definition Len :: "('k, 'v, 'w) lruCache \<Rightarrow> int" where
  "Len lru = len_hash lru"

definition Close :: "('k, 'v, 'w) lruCache \<Rightarrow> ('k, 'v, 'w) lruCache" where
  "Close lru = lru\<lparr>hash := fmempty, lst := Init\<rparr>"

text \<open>
  The environment after one call of the callback on \<open>k\<close> and \<open>v\<close>, as \<open>removeElem\<close>
  makes it: the environment itself when the cache has no callback.
\<close>

definition called :: "('k, 'v, 'w) lruCache \<Rightarrow> 'k \<Rightarrow> 'v Value \<Rightarrow> 'w" where
  "called lru k v = (case onEvicted lru of None \<Rightarrow> world lru | Some f \<Rightarrow> f k v (world lru))"

section \<open>Reachable states and the invariant\<close>

text \<open>
  The states the public operations produce from a constructed cache, at any clock
  readings (\<open>Len\<close> changes nothing).
\<close>

inductive reachable :: "('k, 'v, 'w) lruCache \<Rightarrow> bool" where
  r_new: "reachable (NewCacheWithConfig config w)"
| r_put: "reachable s \<Longrightarrow> reachable (Put s k v now)"
| r_put_timeout: "reachable s \<Longrightarrow> reachable (PutWithTimeout s k v t now)"
| r_get: "reachable s \<Longrightarrow> reachable (snd (Get s k now))"
| r_del: "reachable s \<Longrightarrow> reachable (snd (Del s k))"
| r_close: "reachable s \<Longrightarrow> reachable (Close s)"

text \<open>
  The invariant: the list has no element twice; every key of the map leads to an element
  of the list whose entry holds that key; every element of the list has an entry, whose
  key leads back to it; every allocated address is below \<open>nextElem\<close>.
\<close>

definition index_ok :: "('k, 'v, 'w) lruCache \<Rightarrow> bool" where
  "index_ok s \<longleftrightarrow>
     (\<forall>k a. fmlookup (hash s) k = Some a \<longrightarrow>
        a \<in> set (lst s) \<and> (\<exists>e. fmlookup (elems s) a = Some e \<and> key e = k))"

definition nodes_ok :: "('k, 'v, 'w) lruCache \<Rightarrow> bool" where
  "nodes_ok s \<longleftrightarrow>
     (\<forall>a \<in> set (lst s). \<exists>e. fmlookup (elems s) a = Some e \<and> fmlookup (hash s) (key e) = Some a)"

definition heap_ok :: "('k, 'v, 'w) lruCache \<Rightarrow> bool" where
  "heap_ok s \<longleftrightarrow> (\<forall>a e. fmlookup (elems s) a = Some e \<longrightarrow> a < nextElem s)"

definition cache_inv :: "('k, 'v, 'w) lruCache \<Rightarrow> bool" where
  "cache_inv s \<longleftrightarrow> distinct (lst s) \<and> index_ok s \<and> nodes_ok s \<and> heap_ok s"

section \<open>Clients and what they can observe\<close>

text \<open>
  A call of one of the six methods of the cache with its arguments (and the clock reading
  of the call, for the methods that read the clock), the result it returns, and a
  sequence of calls run one after the other.
\<close>

datatype ('k, 'v) call =
    CallPut 'k "'v Value" Time
  | CallPutWithTimeout 'k "'v Value" Duration Time
  | CallGet 'k Time
  | CallDel 'k
  | CallLen
  | CallClose

datatype 'v result =
    Done
  | Got "'v Value" bool
  | Deleted "'v Value"
  | Length int

fun do_call ::
  "('k, 'v, 'w) lruCache \<Rightarrow> ('k, 'v) call \<Rightarrow> 'v result \<times> ('k, 'v, 'w) lruCache" where
  "do_call s (CallPut k v now) = (Done, Put s k v now)"
| "do_call s (CallPutWithTimeout k v t now) = (Done, PutWithTimeout s k v t now)"
| "do_call s (CallGet k now) = (Got (fst (fst (Get s k now))) (snd (fst (Get s k now))), snd (Get s k now))"
| "do_call s (CallDel k) = (Deleted (fst (Del s k)), snd (Del s k))"
| "do_call s CallLen = (Length (Len s), s)"
| "do_call s CallClose = (Done, Close s)"

fun do_calls ::
  "('k, 'v, 'w) lruCache \<Rightarrow> ('k, 'v) call list \<Rightarrow> 'v result list \<times> ('k, 'v, 'w) lruCache" where
  "do_calls s [] = ([], s)"
| "do_calls s (c # cs) =
     (fst (do_call s c) # fst (do_calls (snd (do_call s c)) cs),
      snd (do_calls (snd (do_call s c)) cs))"

text \<open>
  The entries of the cache in the order of the list, front first. Two caches have the same
  view when they agree on the configuration, on the environment of the callback and on
  these entries: they may differ in the addresses of the elements and in the unlinked
  elements left in the heap.
\<close>

definition entries :: "('k, 'v, 'w) lruCache \<Rightarrow> ('k, 'v) listEntry list" where
  "entries s = List.map_filter (fmlookup (elems s)) (lst s)"

definition same_view :: "('k, 'v, 'w) lruCache \<Rightarrow> ('k, 'v, 'w) lruCache \<Rightarrow> bool" where
  "same_view s1 s2 \<longleftrightarrow>
     maxLen s1 = maxLen s2 \<and> onEvicted s1 = onEvicted s2 \<and> cacheTime s1 = cacheTime s2 \<and>
     world s1 = world s2 \<and> entries s1 = entries s2"

section \<open>Unfolding the operations\<close>

lemmas eval_defs =
  NewCacheWithConfig_def NewCache_def Put_def PutWithTimeout_def Get_def Del_def Len_def
  Close_def lazyRemoveOldest_def removeElem_def len_hash_def PushFront_def MoveToFront_def
  Remove_def Back_def Init_def called_def Let_def Second_def Millisecond_def Minute_def
  DefaultCacheTime_def DefaultMaxLen_def fcard_fempty fcard_finsert_if fmdrop_fmupd

lemma removeElem_None: "removeElem s None = s"
  by (simp add: removeElem_def)

lemma removeElem_Some:
  "fmlookup (elems s) a = Some e \<Longrightarrow>
   removeElem s (Some a) =
     s\<lparr>lst := remove1 a (lst s), hash := fmdrop (key e) (hash s),
       world := called s (key e) (value e)\<rparr>"
  by (simp add: removeElem_def Remove_def Let_def called_def split: option.splits)

section \<open>The invariant holds in every reachable state\<close>

lemma cache_inv_new: "cache_inv (NewCacheWithConfig config w)"
  by (simp add: cache_inv_def index_ok_def nodes_ok_def heap_ok_def NewCacheWithConfig_def)

lemma cache_inv_Close: "cache_inv s \<Longrightarrow> cache_inv (Close s)"
  by (simp add: cache_inv_def index_ok_def nodes_ok_def heap_ok_def Close_def Init_def)

lemma inv_lookup:
  assumes "cache_inv s" "fmlookup (hash s) k = Some a"
  shows "a \<in> set (lst s)" "\<exists>e. fmlookup (elems s) a = Some e \<and> key e = k"
  using assms by (auto simp: cache_inv_def index_ok_def)

lemma inv_node:
  assumes "cache_inv s" "a \<in> set (lst s)"
  shows "\<exists>e. fmlookup (elems s) a = Some e \<and> fmlookup (hash s) (key e) = Some a"
  using assms by (auto simp: cache_inv_def nodes_ok_def)

lemma cache_inv_remove:
  assumes inv: "cache_inv s" and a: "a \<in> set (lst s)" and e: "fmlookup (elems s) a = Some e"
  shows "cache_inv (s\<lparr>lst := remove1 a (lst s), hash := fmdrop (key e) (hash s), world := w\<rparr>)"
proof -
  let ?s' = "s\<lparr>lst := remove1 a (lst s), hash := fmdrop (key e) (hash s), world := w\<rparr>"
  from inv have d: "distinct (lst s)" by (simp add: cache_inv_def)
  from inv_node[OF inv a] e have kb: "fmlookup (hash s) (key e) = Some a" by auto
  have "index_ok ?s'"
    unfolding index_ok_def
  proof (intro allI impI)
    fix k b
    assume "fmlookup (hash ?s') k = Some b"
    then have k: "k \<noteq> key e" and hb: "fmlookup (hash s) k = Some b"
      by (auto split: if_splits)
    from inv_lookup[OF inv hb] obtain e' where b: "b \<in> set (lst s)"
      and e': "fmlookup (elems s) b = Some e'" "key e' = k" by auto
    from e e' k have "b \<noteq> a" by auto
    with b d e' show "b \<in> set (lst ?s') \<and> (\<exists>e. fmlookup (elems ?s') b = Some e \<and> key e = k)"
      by simp
  qed
  moreover have "nodes_ok ?s'"
    unfolding nodes_ok_def
  proof
    fix b
    assume "b \<in> set (lst ?s')"
    with d have b: "b \<in> set (lst s)" and ba: "b \<noteq> a" by auto
    from inv_node[OF inv b] obtain e' where e': "fmlookup (elems s) b = Some e'"
      "fmlookup (hash s) (key e') = Some b" by auto
    from e' kb ba have "key e' \<noteq> key e" by auto
    with e' show "\<exists>e'. fmlookup (elems ?s') b = Some e' \<and> fmlookup (hash ?s') (key e') = Some b"
      by simp
  qed
  moreover from inv have "heap_ok ?s'"
    by (simp add: cache_inv_def heap_ok_def)
  ultimately show ?thesis using d by (simp add: cache_inv_def)
qed

lemma cache_inv_removeElem:
  assumes inv: "cache_inv s" and a: "a \<in> set (lst s)"
  shows "cache_inv (removeElem s (Some a))"
proof -
  from inv_node[OF inv a] obtain e where e: "fmlookup (elems s) a = Some e" by auto
  show ?thesis
    unfolding removeElem_Some[OF e] by (rule cache_inv_remove[OF inv a e])
qed

lemma cache_inv_removeElem_Back:
  assumes inv: "cache_inv s"
  shows "cache_inv (removeElem s (Back (lst s)))"
proof (cases "lst s = []")
  case True
  then show ?thesis using inv by (simp add: Back_def removeElem_None)
next
  case False
  then have "last (lst s) \<in> set (lst s)" by simp
  from cache_inv_removeElem[OF inv this] False show ?thesis by (simp add: Back_def)
qed

lemma cache_inv_lazyRemoveOldest: "cache_inv s \<Longrightarrow> cache_inv (lazyRemoveOldest s)"
  by (simp add: lazyRemoveOldest_def cache_inv_removeElem_Back)

lemma cache_inv_MoveToFront:
  assumes inv: "cache_inv s"
  shows "cache_inv (s\<lparr>lst := MoveToFront a (lst s)\<rparr>)"
proof -
  from inv have d: "distinct (lst s)" by (simp add: cache_inv_def)
  have s: "set (MoveToFront a (lst s)) = set (lst s)"
    using d by (auto simp: MoveToFront_def)
  have "distinct (MoveToFront a (lst s))"
    using d by (auto simp: MoveToFront_def)
  with inv s show ?thesis
    by (simp add: cache_inv_def index_ok_def nodes_ok_def heap_ok_def)
qed


lemma cache_inv_update:
  assumes inv: "cache_inv s" and e: "fmlookup (elems s) a = Some e"
  shows "cache_inv (s\<lparr>lst := MoveToFront a (lst s),
           elems := fmupd a (e\<lparr>value := v, deadTime := d\<rparr>) (elems s)\<rparr>)"
proof -
  let ?s1 = "s\<lparr>lst := MoveToFront a (lst s)\<rparr>"
  have inv1: "cache_inv ?s1" by (rule cache_inv_MoveToFront[OF inv])
  have "index_ok (?s1\<lparr>elems := fmupd a (e\<lparr>value := v, deadTime := d\<rparr>) (elems s)\<rparr>)"
    unfolding index_ok_def
  proof (intro allI impI)
    fix k' b
    assume "fmlookup (hash (?s1\<lparr>elems := fmupd a (e\<lparr>value := v, deadTime := d\<rparr>) (elems s)\<rparr>)) k' = Some b"
    then have hb: "fmlookup (hash ?s1) k' = Some b" by simp
    from inv_lookup[OF inv1 hb] e
    show "b \<in> set (lst (?s1\<lparr>elems := fmupd a (e\<lparr>value := v, deadTime := d\<rparr>) (elems s)\<rparr>)) \<and>
      (\<exists>e'. fmlookup (elems (?s1\<lparr>elems := fmupd a (e\<lparr>value := v, deadTime := d\<rparr>) (elems s)\<rparr>)) b = Some e' \<and> key e' = k')"
      by (cases "b = a") auto
  qed
  moreover have "nodes_ok (?s1\<lparr>elems := fmupd a (e\<lparr>value := v, deadTime := d\<rparr>) (elems s)\<rparr>)"
    unfolding nodes_ok_def
  proof
    fix b
    assume "b \<in> set (lst (?s1\<lparr>elems := fmupd a (e\<lparr>value := v, deadTime := d\<rparr>) (elems s)\<rparr>))"
    then have b: "b \<in> set (lst ?s1)" by simp
    from inv_node[OF inv1 b] e
    show "\<exists>e'. fmlookup (elems (?s1\<lparr>elems := fmupd a (e\<lparr>value := v, deadTime := d\<rparr>) (elems s)\<rparr>)) b = Some e' \<and>
       fmlookup (hash (?s1\<lparr>elems := fmupd a (e\<lparr>value := v, deadTime := d\<rparr>) (elems s)\<rparr>)) (key e') = Some b"
      by (cases "b = a") auto
  qed
  moreover have "heap_ok (?s1\<lparr>elems := fmupd a (e\<lparr>value := v, deadTime := d\<rparr>) (elems s)\<rparr>)"
    using inv1 e by (auto simp: cache_inv_def heap_ok_def)
  ultimately show ?thesis using inv1 by (simp add: cache_inv_def)
qed

lemma inv_fresh:
  assumes inv: "cache_inv s"
  shows "nextElem s \<notin> set (lst s)" "fmlookup (elems s) (nextElem s) = None"
proof -
  from inv have h: "heap_ok s" by (simp add: cache_inv_def)
  show "fmlookup (elems s) (nextElem s) = None"
  proof (cases "fmlookup (elems s) (nextElem s)")
    case (Some e)
    with h have "nextElem s < nextElem s" unfolding heap_ok_def by blast
    then show ?thesis by simp
  qed simp
  then show "nextElem s \<notin> set (lst s)"
    using inv_node[OF inv, of "nextElem s"] by auto
qed

lemma cache_inv_insert:
  assumes inv: "cache_inv s" and k: "fmlookup (hash s) k = None"
  shows "cache_inv (s\<lparr>lst := nextElem s # lst s,
           elems := fmupd (nextElem s) \<lparr>key = k, value = v, deadTime = d\<rparr> (elems s),
           nextElem := Suc (nextElem s),
           hash := fmupd k (nextElem s) (hash s)\<rparr>)"
proof -
  let ?a = "nextElem s"
  let ?s' = "s\<lparr>lst := ?a # lst s,
           elems := fmupd ?a \<lparr>key = k, value = v, deadTime = d\<rparr> (elems s),
           nextElem := Suc ?a, hash := fmupd k ?a (hash s)\<rparr>"
  note fr = inv_fresh[OF inv]
  from inv have d: "distinct (lst s)" and h: "heap_ok s" by (simp_all add: cache_inv_def)
  have "index_ok ?s'"
    unfolding index_ok_def
  proof (intro allI impI)
    fix k' b
    assume hk: "fmlookup (hash ?s') k' = Some b"
    show "b \<in> set (lst ?s') \<and> (\<exists>e. fmlookup (elems ?s') b = Some e \<and> key e = k')"
    proof (cases "k' = k")
      case True
      with hk show ?thesis by simp
    next
      case False
      with hk have hb: "fmlookup (hash s) k' = Some b" by simp
      from inv_lookup[OF inv hb] fr show ?thesis by auto
    qed
  qed
  moreover have "nodes_ok ?s'"
    unfolding nodes_ok_def
  proof
    fix b
    assume b: "b \<in> set (lst ?s')"
    show "\<exists>e. fmlookup (elems ?s') b = Some e \<and> fmlookup (hash ?s') (key e) = Some b"
    proof (cases "b = ?a")
      case True
      then show ?thesis by simp
    next
      case False
      with b have "b \<in> set (lst s)" by simp
      from inv_node[OF inv this] obtain e where e: "fmlookup (elems s) b = Some e"
        "fmlookup (hash s) (key e) = Some b" by auto
      with k have "key e \<noteq> k" by auto
      with e False show ?thesis by simp
    qed
  qed
  moreover have "heap_ok ?s'"
    using h by (auto simp: heap_ok_def less_Suc_eq split: if_splits)
  ultimately show ?thesis using d fr by (simp add: cache_inv_def)
qed

lemma PutWithTimeout_new:
  assumes "fmlookup (hash s) k = None"
  shows "PutWithTimeout s k v t now =
    lazyRemoveOldest (s\<lparr>lst := nextElem s # lst s,
           elems := fmupd (nextElem s) \<lparr>key = k, value = v, deadTime = now + (if t < Second then Second else t)\<rparr> (elems s),
           nextElem := Suc (nextElem s),
           hash := fmupd k (nextElem s) (hash s)\<rparr>)"
  using assms by (simp add: PutWithTimeout_def Let_def PushFront_def)

lemma PutWithTimeout_existing:
  assumes "fmlookup (hash s) k = Some a" "fmlookup (elems s) a = Some e"
  shows "PutWithTimeout s k v t now =
    s\<lparr>lst := MoveToFront a (lst s),
      elems := fmupd a (e\<lparr>value := v, deadTime := now + (if t < Second then Second else t)\<rparr>) (elems s)\<rparr>"
  using assms by (simp add: PutWithTimeout_def Let_def)

lemma Get_absent:
  "fmlookup (hash s) k = None \<Longrightarrow> Get s k now = ((None, False), s)"
  by (simp add: Get_def)

lemma Get_expired:
  "fmlookup (hash s) k = Some a \<Longrightarrow> fmlookup (elems s) a = Some e \<Longrightarrow> deadTime e < now \<Longrightarrow>
   Get s k now = ((None, False), removeElem s (Some a))"
  by (simp add: Get_def)

lemma Get_live:
  "fmlookup (hash s) k = Some a \<Longrightarrow> fmlookup (elems s) a = Some e \<Longrightarrow> \<not> deadTime e < now \<Longrightarrow>
   Get s k now = ((value e, True), s\<lparr>lst := MoveToFront a (lst s)\<rparr>)"
  by (simp add: Get_def)

lemma Del_absent:
  "fmlookup (hash s) k = None \<Longrightarrow> Del s k = (None, s)"
  by (simp add: Del_def)

lemma Del_present:
  "fmlookup (hash s) k = Some a \<Longrightarrow> fmlookup (elems s) a = Some e \<Longrightarrow>
   Del s k = (value e, removeElem s (Some a))"
  by (simp add: Del_def)

lemma cache_inv_PutWithTimeout:
  assumes inv: "cache_inv s"
  shows "cache_inv (PutWithTimeout s k v t now)"
proof (cases "fmlookup (hash s) k")
  case None
  show ?thesis
    unfolding PutWithTimeout_new[OF None]
    by (rule cache_inv_lazyRemoveOldest[OF cache_inv_insert[OF inv None]])
next
  case (Some a)
  from inv_lookup[OF inv Some] obtain e where e: "fmlookup (elems s) a = Some e" by auto
  show ?thesis
    unfolding PutWithTimeout_existing[OF Some e] by (rule cache_inv_update[OF inv e])
qed

lemma cache_inv_Get:
  assumes inv: "cache_inv s"
  shows "cache_inv (snd (Get s k now))"
proof (cases "fmlookup (hash s) k")
  case None
  with inv show ?thesis by (simp add: Get_absent)
next
  case (Some a)
  from inv_lookup[OF inv Some] obtain e where a: "a \<in> set (lst s)"
    and e: "fmlookup (elems s) a = Some e" by auto
  show ?thesis
  proof (cases "deadTime e < now")
    case True
    show ?thesis unfolding Get_expired[OF Some e True] snd_conv
      by (rule cache_inv_removeElem[OF inv a])
  next
    case False
    show ?thesis unfolding Get_live[OF Some e False] snd_conv
      by (rule cache_inv_MoveToFront[OF inv])
  qed
qed

lemma cache_inv_Del:
  assumes inv: "cache_inv s"
  shows "cache_inv (snd (Del s k))"
proof (cases "fmlookup (hash s) k")
  case None
  with inv show ?thesis by (simp add: Del_absent)
next
  case (Some a)
  from inv_lookup[OF inv Some] obtain e where a: "a \<in> set (lst s)"
    and e: "fmlookup (elems s) a = Some e" by auto
  show ?thesis unfolding Del_present[OF Some e] snd_conv
    by (rule cache_inv_removeElem[OF inv a])
qed

lemma reachable_inv: "reachable s \<Longrightarrow> cache_inv s"
proof (induction rule: reachable.induct)
  case (r_new config w)
  show ?case by (rule cache_inv_new)
next
  case (r_put s k v now)
  then show ?case by (simp add: Put_def cache_inv_PutWithTimeout)
next
  case (r_put_timeout s k v t now)
  then show ?case by (simp add: cache_inv_PutWithTimeout)
next
  case (r_get s k now)
  then show ?case by (simp add: cache_inv_Get)
next
  case (r_del s k)
  then show ?case by (simp add: cache_inv_Del)
next
  case (r_close s)
  then show ?case by (simp add: cache_inv_Close)
qed

lemma inv_count:
  assumes inv: "cache_inv s"
  shows "fcard (fmdom (hash s)) = length (lst s)"
proof -
  let ?f = "\<lambda>k. the (fmlookup (hash s) k)"
  have "bij_betw ?f (fmdom' (hash s)) (set (lst s))"
    unfolding bij_betw_def
  proof
    show "inj_on ?f (fmdom' (hash s))"
    proof (rule inj_onI)
      fix x y
      assume "x \<in> fmdom' (hash s)" "y \<in> fmdom' (hash s)" and eq: "?f x = ?f y"
      then obtain a b where x: "fmlookup (hash s) x = Some a" and y: "fmlookup (hash s) y = Some b"
        by (auto simp: fmlookup_dom'_iff)
      from inv_lookup(2)[OF inv x] inv_lookup(2)[OF inv y] eq x y show "x = y" by auto
    qed
    show "?f ` fmdom' (hash s) = set (lst s)"
    proof (intro equalityI subsetI)
      fix a assume "a \<in> ?f ` fmdom' (hash s)"
      then obtain k b where "fmlookup (hash s) k = Some b" "a = b"
        by (auto simp: fmlookup_dom'_iff)
      with inv_lookup(1)[OF inv] show "a \<in> set (lst s)" by auto
    next
      fix a assume "a \<in> set (lst s)"
      from inv_node[OF inv this] obtain e where "fmlookup (elems s) a = Some e"
        and "fmlookup (hash s) (key e) = Some a" by auto
      then have "key e \<in> fmdom' (hash s)" "?f (key e) = a"
        by (simp_all add: fmdom'I)
      then show "a \<in> ?f ` fmdom' (hash s)" by (metis imageI)
    qed
  qed
  then have "card (fmdom' (hash s)) = card (set (lst s))" by (rule bij_betw_same_card)
  moreover from inv have "distinct (lst s)" by (simp add: cache_inv_def)
  moreover have "fcard (fmdom (hash s)) = card (fmdom' (hash s))"
    by (simp add: fcard.rep_eq fmdom'_alt_def)
  ultimately show ?thesis
    by (simp add: distinct_card)
qed

lemma called_frame:
  "onEvicted s' = onEvicted s \<Longrightarrow> world s' = world s \<Longrightarrow> called s' k v = called s k v"
  by (simp add: called_def split: option.splits)

lemma remove1_last:
  "distinct xs \<Longrightarrow> xs \<noteq> [] \<Longrightarrow> remove1 (last xs) xs = butlast xs"
  by (induction xs) auto

lemma len_hash_inv: "cache_inv s \<Longrightarrow> len_hash s = int (length (lst s))"
  by (simp add: len_hash_def inv_count)

lemma hash_empty_inv:
  assumes inv: "cache_inv s" and e: "lst s = []"
  shows "hash s = fmempty"
proof (rule fmap_ext)
  fix k
  show "fmlookup (hash s) k = fmlookup fmempty k"
  proof (cases "fmlookup (hash s) k")
    case (Some a)
    from inv_lookup(1)[OF inv Some] e show ?thesis by simp
  qed simp
qed

lemma PutWithTimeout_new_fits:
  assumes inv: "cache_inv s" and k: "fmlookup (hash s) k = None"
    and fits: "int (length (lst s)) + 1 \<le> maxLen s"
  shows "PutWithTimeout s k v t now =
    s\<lparr>lst := nextElem s # lst s,
      elems := fmupd (nextElem s) \<lparr>key = k, value = v, deadTime = now + (if t < Second then Second else t)\<rparr> (elems s),
      nextElem := Suc (nextElem s),
      hash := fmupd k (nextElem s) (hash s)\<rparr>"
proof -
  let ?s1 = "s\<lparr>lst := nextElem s # lst s,
      elems := fmupd (nextElem s) \<lparr>key = k, value = v, deadTime = now + (if t < Second then Second else t)\<rparr> (elems s),
      nextElem := Suc (nextElem s),
      hash := fmupd k (nextElem s) (hash s)\<rparr>"
  have "len_hash ?s1 = int (length (lst ?s1))"
    by (rule len_hash_inv[OF cache_inv_insert[OF inv k]])
  with fits have "lazyRemoveOldest ?s1 = ?s1" by (simp add: lazyRemoveOldest_def)
  then show ?thesis unfolding PutWithTimeout_new[OF k] .
qed

lemma PutWithTimeout_new_evicts:
  assumes inv: "cache_inv s" and k: "fmlookup (hash s) k = None"
    and over: "maxLen s < int (length (lst s)) + 1"
    and ne: "lst s \<noteq> []" and eb: "fmlookup (elems s) (last (lst s)) = Some eb"
  shows "PutWithTimeout s k v t now =
    s\<lparr>lst := nextElem s # butlast (lst s),
      elems := fmupd (nextElem s) \<lparr>key = k, value = v, deadTime = now + (if t < Second then Second else t)\<rparr> (elems s),
      nextElem := Suc (nextElem s),
      hash := fmdrop (key eb) (fmupd k (nextElem s) (hash s)),
      world := called s (key eb) (value eb)\<rparr>"
proof -
  let ?s1 = "s\<lparr>lst := nextElem s # lst s,
      elems := fmupd (nextElem s) \<lparr>key = k, value = v, deadTime = now + (if t < Second then Second else t)\<rparr> (elems s),
      nextElem := Suc (nextElem s),
      hash := fmupd k (nextElem s) (hash s)\<rparr>"
  note fr = inv_fresh[OF inv]
  from inv have d: "distinct (lst s)" by (simp add: cache_inv_def)
  have "len_hash ?s1 = int (length (lst ?s1))"
    by (rule len_hash_inv[OF cache_inv_insert[OF inv k]])
  with over have l: "lazyRemoveOldest ?s1 = removeElem ?s1 (Some (last (lst s)))"
    using ne by (simp add: lazyRemoveOldest_def Back_def)
  from ne have "last (lst s) \<in> set (lst s)" by simp
  with fr have neq: "last (lst s) \<noteq> nextElem s" by auto
  with eb have eb1: "fmlookup (elems ?s1) (last (lst s)) = Some eb" by simp
  have "remove1 (last (lst s)) (nextElem s # lst s) = nextElem s # butlast (lst s)"
    using neq d ne by (simp add: remove1_last)
  moreover have "called ?s1 (key eb) (value eb) = called s (key eb) (value eb)"
    by (rule called_frame) simp_all
  ultimately show ?thesis
    unfolding PutWithTimeout_new[OF k] l removeElem_Some[OF eb1]
    by simp
qed

lemma PutWithTimeout_new_self:
  assumes inv: "cache_inv s" and k: "fmlookup (hash s) k = None"
    and over: "maxLen s < int (length (lst s)) + 1"
    and e: "lst s = []"
  shows "PutWithTimeout s k v t now =
    s\<lparr>elems := fmupd (nextElem s) \<lparr>key = k, value = v, deadTime = now + (if t < Second then Second else t)\<rparr> (elems s),
      nextElem := Suc (nextElem s),
      world := called s k v\<rparr>"
proof -
  let ?s1 = "s\<lparr>lst := nextElem s # lst s,
      elems := fmupd (nextElem s) \<lparr>key = k, value = v, deadTime = now + (if t < Second then Second else t)\<rparr> (elems s),
      nextElem := Suc (nextElem s),
      hash := fmupd k (nextElem s) (hash s)\<rparr>"
  have "len_hash ?s1 = int (length (lst ?s1))"
    by (rule len_hash_inv[OF cache_inv_insert[OF inv k]])
  with over have l: "lazyRemoveOldest ?s1 = removeElem ?s1 (Some (nextElem s))"
    using e by (simp add: lazyRemoveOldest_def Back_def)
  have e1: "fmlookup (elems ?s1) (nextElem s) =
     Some \<lparr>key = k, value = v, deadTime = now + (if t < Second then Second else t)\<rparr>" by simp
  have "called ?s1 k v = called s k v"
    by (rule called_frame) simp_all
  with hash_empty_inv[OF inv e] e show ?thesis
    unfolding PutWithTimeout_new[OF k] l removeElem_Some[OF e1]
    by (simp add: fmdrop_fmupd)
qed

lemma maxLen_removeElem [simp]: "maxLen (removeElem s x) = maxLen s"
  by (simp add: removeElem_def Let_def split: option.splits)

lemma maxLen_PutWithTimeout [simp]: "maxLen (PutWithTimeout s k v t now) = maxLen s"
  by (simp add: PutWithTimeout_def lazyRemoveOldest_def Let_def split: option.splits)

lemma maxLen_Get [simp]: "maxLen (snd (Get s k now)) = maxLen s"
  by (simp add: Get_def split: option.splits)

lemma maxLen_Del [simp]: "maxLen (snd (Del s k)) = maxLen s"
  by (simp add: Del_def split: option.splits)


lemma length_MoveToFront [simp]: "length (MoveToFront a xs) = length xs"
proof (cases "a \<in> set xs")
  case True
  then have "0 < length xs" by (cases xs) auto
  with True show ?thesis by (simp add: MoveToFront_def length_remove1)
next
  case False
  then show ?thesis by (simp add: MoveToFront_def)
qed

lemma inv_last:
  assumes inv: "cache_inv s" and ne: "lst s \<noteq> []"
  obtains eb where "fmlookup (elems s) (last (lst s)) = Some eb"
    and "fmlookup (hash s) (key eb) = Some (last (lst s))"
proof -
  from ne have "last (lst s) \<in> set (lst s)" by simp
  from inv_node[OF inv this] that show thesis by auto
qed



lemma entry_update_eq:
  "key e = k \<Longrightarrow> e\<lparr>value := v, deadTime := d\<rparr> = \<lparr>key = k, value = v, deadTime = d\<rparr>"
  by (cases e) simp

lemma PutWithTimeout_entry:
  assumes inv: "cache_inv s"
    and a: "fmlookup (hash (PutWithTimeout s k v t now)) k = Some a"
  shows "fmlookup (elems (PutWithTimeout s k v t now)) a =
     Some \<lparr>key = k, value = v, deadTime = now + (if t < Second then Second else t)\<rparr>"
proof (cases "fmlookup (hash s) k")
  case (Some b)
  from inv_lookup[OF inv Some] obtain e where e: "fmlookup (elems s) b = Some e" "key e = k"
    by auto
  from a Some e show ?thesis
    unfolding PutWithTimeout_existing[OF Some e(1)] by (simp add: entry_update_eq)
next
  case None
  show ?thesis
  proof (cases "int (length (lst s)) + 1 \<le> maxLen s")
    case True
    from a show ?thesis unfolding PutWithTimeout_new_fits[OF inv None True] by auto
  next
    case False
    then have over: "maxLen s < int (length (lst s)) + 1" by simp
    show ?thesis
    proof (cases "lst s = []")
      case True
      from a None show ?thesis unfolding PutWithTimeout_new_self[OF inv None over True]
        by simp
    next
      case ne: False
      from inv_last[OF inv ne] obtain eb where eb: "fmlookup (elems s) (last (lst s)) = Some eb"
        by blast
      from a show ?thesis
        unfolding PutWithTimeout_new_evicts[OF inv None over ne eb]
        by (auto split: if_splits)
    qed
  qed
qed

lemma PutWithTimeout_present:
  assumes inv: "cache_inv s" and m: "1 \<le> maxLen s"
  shows "\<exists>a. fmlookup (hash (PutWithTimeout s k v t now)) k = Some a"
proof (cases "fmlookup (hash s) k")
  case (Some b)
  from inv_lookup[OF inv Some] obtain e where e: "fmlookup (elems s) b = Some e" by auto
  from Some show ?thesis unfolding PutWithTimeout_existing[OF Some e] by simp
next
  case None
  show ?thesis
  proof (cases "int (length (lst s)) + 1 \<le> maxLen s")
    case True
    show ?thesis unfolding PutWithTimeout_new_fits[OF inv None True] by simp
  next
    case False
    then have over: "maxLen s < int (length (lst s)) + 1" by simp
    with m have ne: "lst s \<noteq> []" by auto
    from inv_last[OF inv ne] obtain eb where eb: "fmlookup (elems s) (last (lst s)) = Some eb"
      and kb: "fmlookup (hash s) (key eb) = Some (last (lst s))" by blast
    from kb None have "key eb \<noteq> k" by auto
    then show ?thesis
      unfolding PutWithTimeout_new_evicts[OF inv None over ne eb] by simp
  qed
qed


lemma Len_inv: "cache_inv s \<Longrightarrow> Len s = int (length (lst s))"
  by (simp add: Len_def len_hash_inv)

lemma removeElem_present:
  assumes inv: "cache_inv s" and a: "fmlookup (hash s) k = Some a"
    and e: "fmlookup (elems s) a = Some e"
  shows "removeElem s (Some a) =
    s\<lparr>lst := remove1 a (lst s), hash := fmdrop k (hash s), world := called s k (value e)\<rparr>"
proof -
  from inv_lookup(2)[OF inv a] e have "key e = k" by auto
  with removeElem_Some[OF e] show ?thesis by simp
qed

lemma PutWithTimeout_clock:
  "PutWithTimeout s k v t now2 =
     (PutWithTimeout s k v t now1)\<lparr>elems := elems (PutWithTimeout s k v t now2)\<rparr> \<and>
   fmmap (\<lambda>e. (key e, value e)) (elems (PutWithTimeout s k v t now2)) =
   fmmap (\<lambda>e. (key e, value e)) (elems (PutWithTimeout s k v t now1))"
proof (cases "fmlookup (hash s) k")
  case (Some a)
  then show ?thesis
    by (cases "fmlookup (elems s) a")
       (auto simp: PutWithTimeout_def Let_def intro!: fmap_ext)
next
  case None
  let ?d1 = "now1 + (if t < Second then Second else t)"
  let ?d2 = "now2 + (if t < Second then Second else t)"
  let ?i = "\<lambda>d. s\<lparr>lst := nextElem s # lst s,
           elems := fmupd (nextElem s) \<lparr>key = k, value = v, deadTime = d\<rparr> (elems s),
           nextElem := Suc (nextElem s),
           hash := fmupd k (nextElem s) (hash s)\<rparr>"
  have r: "removeElem (?i ?d2) x = (removeElem (?i ?d1) x)\<lparr>elems := elems (?i ?d2)\<rparr> \<and>
      elems (removeElem (?i ?d2) x) = elems (?i ?d2) \<and>
      elems (removeElem (?i ?d1) x) = elems (?i ?d1)" for x
    by (cases x) (auto simp: removeElem_def Let_def split: option.splits)
  have l: "lazyRemoveOldest (?i ?d2) = (lazyRemoveOldest (?i ?d1))\<lparr>elems := elems (?i ?d2)\<rparr> \<and>
      elems (lazyRemoveOldest (?i ?d2)) = elems (?i ?d2) \<and>
      elems (lazyRemoveOldest (?i ?d1)) = elems (?i ?d1)"
    using r[of "Back (lst (?i ?d1))"] by (simp add: lazyRemoveOldest_def len_hash_def)
  have m: "fmmap (\<lambda>e. (key e, value e)) (elems (?i ?d2)) = fmmap (\<lambda>e. (key e, value e)) (elems (?i ?d1))"
    by (rule fmap_ext) simp
  from l m show ?thesis
    unfolding PutWithTimeout_new[OF None] by simp
qed

lemma max_ttl: "(if t < Second then Second else t) = max t Second"
  by (simp add: max_def)

lemma set_MoveToFront [simp]: "set (MoveToFront a xs) = set xs"
proof (cases "a \<in> set xs")
  case True
  have "x \<in> set (a # remove1 a xs) \<longleftrightarrow> x \<in> set xs" for x
    using True by (cases "x = a") (simp_all add: in_set_remove1)
  then have "set (a # remove1 a xs) = set xs" by blast
  with True show ?thesis by (simp add: MoveToFront_def)
next
  case False
  then show ?thesis by (simp add: MoveToFront_def)
qed

section \<open>The view of a cache determines what its clients observe\<close>

lemma map_filter_total:
  "(\<forall>a \<in> set xs. f a \<noteq> None) \<Longrightarrow> List.map_filter f xs = map (\<lambda>a. the (f a)) xs"
  by (induction xs) (auto simp: List.map_filter_simps)

lemma entries_map:
  "(\<forall>a \<in> set (lst s). fmlookup (elems s) a \<noteq> None) \<Longrightarrow>
   entries s = map (\<lambda>a. the (fmlookup (elems s) a)) (lst s)"
  unfolding entries_def by (rule map_filter_total)

lemma inv_total: "cache_inv s \<Longrightarrow> \<forall>a \<in> set (lst s). fmlookup (elems s) a \<noteq> None"
  using inv_node by fastforce

lemma entries_inv:
  "cache_inv s \<Longrightarrow> entries s = map (\<lambda>a. the (fmlookup (elems s) a)) (lst s)"
  by (rule entries_map[OF inv_total])

lemma length_entries: "cache_inv s \<Longrightarrow> length (entries s) = length (lst s)"
  by (simp add: entries_inv)

lemma inv_key_iff:
  assumes inv: "cache_inv s" and a: "fmlookup (hash s) k = Some a" and b: "b \<in> set (lst s)"
  shows "key (the (fmlookup (elems s) b)) = k \<longleftrightarrow> b = a"
proof
  assume kb: "key (the (fmlookup (elems s) b)) = k"
  from inv_node[OF inv b] obtain e where "fmlookup (elems s) b = Some e"
    and "fmlookup (hash s) (key e) = Some b" by auto
  with kb a show "b = a" by simp
next
  assume "b = a"
  with inv_lookup(2)[OF inv a] show "key (the (fmlookup (elems s) b)) = k" by auto
qed

lemma inv_key_none:
  assumes inv: "cache_inv s" and k: "fmlookup (hash s) k = None" and b: "b \<in> set (lst s)"
  shows "key (the (fmlookup (elems s) b)) \<noteq> k"
proof -
  from inv_node[OF inv b] obtain e where "fmlookup (elems s) b = Some e"
    and "fmlookup (hash s) (key e) = Some b" by auto
  with k show ?thesis by auto
qed

lemma find_map_unique:
  "a \<in> set xs \<Longrightarrow> (\<forall>b \<in> set xs. P (f b) \<longleftrightarrow> b = a) \<Longrightarrow> find P (map f xs) = Some (f a)"
  by (induction xs) auto

lemma find_map_none:
  "(\<forall>b \<in> set xs. \<not> P (f b)) \<Longrightarrow> find P (map f xs) = None"
  by (induction xs) auto

lemma map_remove1_filter:
  "distinct xs \<Longrightarrow> (\<forall>b \<in> set xs. Q (f b) \<longleftrightarrow> b \<noteq> a) \<Longrightarrow>
   map f (remove1 a xs) = filter Q (map f xs)"
proof (induction xs)
  case Nil
  show ?case by simp
next
  case (Cons x xs)
  show ?case
  proof (cases "x = a")
    case True
    with Cons.prems have "\<forall>b \<in> set xs. Q (f b)" by auto
    then have "filter Q (map f xs) = map f xs" by (simp add: filter_id_conv)
    with True Cons.prems show ?thesis by simp
  next
    case False
    with Cons show ?thesis by simp
  qed
qed

lemma entries_find_Some:
  assumes inv: "cache_inv s" and a: "fmlookup (hash s) k = Some a"
    and e: "fmlookup (elems s) a = Some e"
  shows "find (\<lambda>e. key e = k) (entries s) = Some e"
proof -
  have "find (\<lambda>e. key e = k) (map (\<lambda>a. the (fmlookup (elems s) a)) (lst s)) =
      Some (the (fmlookup (elems s) a))"
    by (rule find_map_unique[OF inv_lookup(1)[OF inv a]]) (simp add: inv_key_iff[OF inv a])
  with e show ?thesis by (simp add: entries_inv[OF inv])
qed

lemma entries_find_None:
  assumes inv: "cache_inv s" and k: "fmlookup (hash s) k = None"
  shows "find (\<lambda>e. key e = k) (entries s) = None"
  unfolding entries_inv[OF inv]
  by (rule find_map_none) (simp add: inv_key_none[OF inv k])

lemma entries_removed:
  assumes inv: "cache_inv s" and a: "fmlookup (hash s) k = Some a"
  shows "entries (s\<lparr>lst := remove1 a (lst s), hash := h, world := w\<rparr>) =
     filter (\<lambda>e. key e \<noteq> k) (entries s)"
proof -
  from inv have d: "distinct (lst s)" by (simp add: cache_inv_def)
  have "entries (s\<lparr>lst := remove1 a (lst s), hash := h, world := w\<rparr>) =
      map (\<lambda>a. the (fmlookup (elems s) a)) (remove1 a (lst s))"
    using inv_total[OF inv] by (subst entries_map) (auto dest: notin_set_remove1)
  also have "\<dots> = filter (\<lambda>e. key e \<noteq> k) (map (\<lambda>a. the (fmlookup (elems s) a)) (lst s))"
    by (rule map_remove1_filter[OF d]) (simp add: inv_key_iff[OF inv a])
  finally show ?thesis by (simp add: entries_inv[OF inv])
qed

lemma entries_eq:
  assumes "lst s' = xs" and "\<forall>b \<in> set xs. fmlookup (elems s') b = Some (g b)"
  shows "entries s' = map g xs"
proof -
  from assms have "entries s' = map (\<lambda>a. the (fmlookup (elems s') a)) xs"
    by (subst entries_map) auto
  also from assms(2) have "\<dots> = map g xs" by (intro map_cong) auto
  finally show ?thesis .
qed

lemma entries_moved:
  assumes inv: "cache_inv s" and a: "fmlookup (hash s) k = Some a"
    and l: "lst s' = MoveToFront a (lst s)"
    and ea: "fmlookup (elems s') a = Some e'"
    and eo: "\<forall>b. b \<noteq> a \<longrightarrow> fmlookup (elems s') b = fmlookup (elems s) b"
  shows "entries s' = e' # filter (\<lambda>e. key e \<noteq> k) (entries s)"
proof -
  let ?f = "\<lambda>b. the (fmlookup (elems s) b)"
  from inv have d: "distinct (lst s)" by (simp add: cache_inv_def)
  from inv_lookup(1)[OF inv a] l have l': "lst s' = a # remove1 a (lst s)"
    by (simp add: MoveToFront_def)
  have "\<forall>b \<in> set (a # remove1 a (lst s)).
      fmlookup (elems s') b = Some (if b = a then e' else ?f b)"
  proof
    fix b assume b: "b \<in> set (a # remove1 a (lst s))"
    show "fmlookup (elems s') b = Some (if b = a then e' else ?f b)"
    proof (cases "b = a")
      case True
      with ea show ?thesis by simp
    next
      case False
      with b have "b \<in> set (lst s)" by (auto dest: notin_set_remove1)
      from inv_node[OF inv this] False eo show ?thesis by auto
    qed
  qed
  from entries_eq[OF l' this]
  have "entries s' = e' # map (\<lambda>b. if b = a then e' else ?f b) (remove1 a (lst s))"
    by simp
  also have "map (\<lambda>b. if b = a then e' else ?f b) (remove1 a (lst s)) = map ?f (remove1 a (lst s))"
    using d by (intro map_cong) auto
  also have "\<dots> = filter (\<lambda>e. key e \<noteq> k) (map ?f (lst s))"
    by (rule map_remove1_filter[OF d]) (simp add: inv_key_iff[OF inv a])
  finally show ?thesis by (simp add: entries_inv[OF inv])
qed

lemma entries_pushed:
  assumes inv: "cache_inv s"
    and l: "lst s' = nextElem s # xs" and sub: "set xs \<subseteq> set (lst s)"
    and e: "elems s' = fmupd (nextElem s) new (elems s)"
  shows "entries s' = new # map (\<lambda>b. the (fmlookup (elems s) b)) xs"
proof -
  let ?f = "\<lambda>b. the (fmlookup (elems s) b)"
  note fr = inv_fresh[OF inv]
  have "\<forall>b \<in> set (nextElem s # xs).
      fmlookup (elems s') b = Some (if b = nextElem s then new else ?f b)"
  proof
    fix b assume b: "b \<in> set (nextElem s # xs)"
    show "fmlookup (elems s') b = Some (if b = nextElem s then new else ?f b)"
    proof (cases "b = nextElem s")
      case True
      with e show ?thesis by simp
    next
      case False
      with b sub have "b \<in> set (lst s)" by auto
      from inv_node[OF inv this] False e show ?thesis by auto
    qed
  qed
  from entries_eq[OF l this]
  have "entries s' = new # map (\<lambda>b. if b = nextElem s then new else ?f b) xs" by simp
  also have "map (\<lambda>b. if b = nextElem s then new else ?f b) xs = map ?f xs"
    using fr(1) sub by (intro map_cong) auto
  finally show ?thesis .
qed

lemma Get_view:
  assumes inv: "cache_inv s"
  shows "(fst (Get s k now), entries (snd (Get s k now)), world (snd (Get s k now))) =
    (case find (\<lambda>e. key e = k) (entries s) of
       None \<Rightarrow> ((None, False), entries s, world s)
     | Some e \<Rightarrow>
         if deadTime e < now
         then ((None, False), filter (\<lambda>e. key e \<noteq> k) (entries s), called s k (value e))
         else ((value e, True), e # filter (\<lambda>e. key e \<noteq> k) (entries s), world s))"
proof (cases "fmlookup (hash s) k")
  case None
  show ?thesis unfolding Get_absent[OF None] entries_find_None[OF inv None] by simp
next
  case (Some a)
  from inv_lookup[OF inv Some] obtain e where e: "fmlookup (elems s) a = Some e" by auto
  show ?thesis
  proof (cases "deadTime e < now")
    case True
    show ?thesis
      unfolding Get_expired[OF Some e True] removeElem_present[OF inv Some e]
        entries_find_Some[OF inv Some e]
      using True by (simp add: entries_removed[OF inv Some])
  next
    case False
    have "entries (s\<lparr>lst := MoveToFront a (lst s)\<rparr>) = e # filter (\<lambda>e. key e \<noteq> k) (entries s)"
      by (rule entries_moved[OF inv Some]) (simp_all add: e)
    then show ?thesis
      unfolding Get_live[OF Some e False] entries_find_Some[OF inv Some e]
      using False by simp
  qed
qed

lemma Del_view:
  assumes inv: "cache_inv s"
  shows "(fst (Del s k), entries (snd (Del s k)), world (snd (Del s k))) =
    (case find (\<lambda>e. key e = k) (entries s) of
       None \<Rightarrow> (None, entries s, world s)
     | Some e \<Rightarrow> (value e, filter (\<lambda>e. key e \<noteq> k) (entries s), called s k (value e)))"
proof (cases "fmlookup (hash s) k")
  case None
  show ?thesis unfolding Del_absent[OF None] entries_find_None[OF inv None] by simp
next
  case (Some a)
  from inv_lookup[OF inv Some] obtain e where e: "fmlookup (elems s) a = Some e" by auto
  show ?thesis
    unfolding Del_present[OF Some e] removeElem_present[OF inv Some e]
      entries_find_Some[OF inv Some e]
    by (simp add: entries_removed[OF inv Some])
qed

lemma PutWithTimeout_view:
  assumes inv: "cache_inv s"
  shows "(entries (PutWithTimeout s k v t now), world (PutWithTimeout s k v t now)) =
    (let new = \<lparr>key = k, value = v, deadTime = now + (if t < Second then Second else t)\<rparr> in
     case find (\<lambda>e. key e = k) (entries s) of
       Some e \<Rightarrow> (new # filter (\<lambda>e. key e \<noteq> k) (entries s), world s)
     | None \<Rightarrow>
         if int (length (entries s)) + 1 \<le> maxLen s then (new # entries s, world s)
         else (butlast (new # entries s),
               called s (key (last (new # entries s))) (value (last (new # entries s)))))"
proof (cases "fmlookup (hash s) k")
  case (Some a)
  from inv_lookup[OF inv Some] obtain e where e: "fmlookup (elems s) a = Some e" "key e = k"
    by auto
  let ?new = "\<lparr>key = k, value = v, deadTime = now + (if t < Second then Second else t)\<rparr>"
  have "entries (PutWithTimeout s k v t now) = ?new # filter (\<lambda>e. key e \<noteq> k) (entries s)"
    unfolding PutWithTimeout_existing[OF Some e(1)]
    by (rule entries_moved[OF inv Some]) (simp_all add: entry_update_eq[OF e(2)])
  moreover have "world (PutWithTimeout s k v t now) = world s"
    unfolding PutWithTimeout_existing[OF Some e(1)] by simp
  ultimately show ?thesis
    unfolding entries_find_Some[OF inv Some e(1)] by (simp add: Let_def)
next
  case None
  let ?new = "\<lparr>key = k, value = v, deadTime = now + (if t < Second then Second else t)\<rparr>"
  let ?f = "\<lambda>b. the (fmlookup (elems s) b)"
  note ei = entries_inv[OF inv]
  show ?thesis
  proof (cases "int (length (lst s)) + 1 \<le> maxLen s")
    case True
    have "entries (PutWithTimeout s k v t now) = ?new # map ?f (lst s)"
      unfolding PutWithTimeout_new_fits[OF inv None True]
      by (rule entries_pushed[OF inv]) simp_all
    moreover have "world (PutWithTimeout s k v t now) = world s"
      unfolding PutWithTimeout_new_fits[OF inv None True] by simp
    ultimately show ?thesis
      unfolding entries_find_None[OF inv None] using True
      by (simp add: Let_def ei)
  next
    case False
    then have over: "maxLen s < int (length (lst s)) + 1" by simp
    show ?thesis
    proof (cases "lst s = []")
      case True
      have "entries (PutWithTimeout s k v t now) = []"
        unfolding PutWithTimeout_new_self[OF inv None over True]
        using True by (simp add: entries_def List.map_filter_simps)
      moreover have "world (PutWithTimeout s k v t now) = called s k v"
        unfolding PutWithTimeout_new_self[OF inv None over True] by simp
      ultimately show ?thesis
        unfolding entries_find_None[OF inv None] using True False
        by (simp add: Let_def ei)
    next
      case ne: False
      from inv_last[OF inv ne] obtain eb where eb: "fmlookup (elems s) (last (lst s)) = Some eb"
        by blast
      have "entries (PutWithTimeout s k v t now) = ?new # map ?f (butlast (lst s))"
        unfolding PutWithTimeout_new_evicts[OF inv None over ne eb]
        by (rule entries_pushed[OF inv]) (auto dest: in_set_butlastD)
      moreover have "world (PutWithTimeout s k v t now) = called s (key eb) (value eb)"
        unfolding PutWithTimeout_new_evicts[OF inv None over ne eb] by simp
      moreover from ne eb have "last (map ?f (lst s)) = eb" by (simp add: last_map)
      ultimately show ?thesis
        unfolding entries_find_None[OF inv None] using ne False
        by (simp add: Let_def ei map_butlast)
    qed
  qed
qed

lemma config_removeElem [simp]:
  "onEvicted (removeElem s x) = onEvicted s" "cacheTime (removeElem s x) = cacheTime s"
  by (simp_all add: removeElem_def Let_def split: option.splits)

lemma config_PutWithTimeout [simp]:
  "onEvicted (PutWithTimeout s k v t now) = onEvicted s"
  "cacheTime (PutWithTimeout s k v t now) = cacheTime s"
  by (simp_all add: PutWithTimeout_def lazyRemoveOldest_def Let_def split: option.splits)

lemma config_Get [simp]:
  "onEvicted (snd (Get s k now)) = onEvicted s" "cacheTime (snd (Get s k now)) = cacheTime s"
  by (simp_all add: Get_def split: option.splits)

lemma config_Del [simp]:
  "onEvicted (snd (Del s k)) = onEvicted s" "cacheTime (snd (Del s k)) = cacheTime s"
  by (simp_all add: Del_def split: option.splits)

lemma called_same_view: "same_view s1 s2 \<Longrightarrow> called s1 = called s2"
  by (intro ext, rule called_frame) (simp_all add: same_view_def)

lemma same_viewD:
  assumes "same_view s1 s2"
  shows "entries s1 = entries s2" "world s1 = world s2" "maxLen s1 = maxLen s2"
  using assms by (simp_all add: same_view_def)

lemma same_view_PutWithTimeout:
  assumes i1: "cache_inv s1" and i2: "cache_inv s2" and v: "same_view s1 s2"
  shows "same_view (PutWithTimeout s1 k x t now) (PutWithTimeout s2 k x t now)"
proof -
  have "(entries (PutWithTimeout s1 k x t now), world (PutWithTimeout s1 k x t now)) =
      (entries (PutWithTimeout s2 k x t now), world (PutWithTimeout s2 k x t now))"
    unfolding PutWithTimeout_view[OF i1] PutWithTimeout_view[OF i2] same_viewD[OF v] called_same_view[OF v] ..
  with v show ?thesis by (simp add: same_view_def)
qed

lemma same_view_Get:
  assumes i1: "cache_inv s1" and i2: "cache_inv s2" and v: "same_view s1 s2"
  shows "fst (Get s1 k now) = fst (Get s2 k now) \<and>
         same_view (snd (Get s1 k now)) (snd (Get s2 k now))"
proof -
  have "(fst (Get s1 k now), entries (snd (Get s1 k now)), world (snd (Get s1 k now))) =
      (fst (Get s2 k now), entries (snd (Get s2 k now)), world (snd (Get s2 k now)))"
    unfolding Get_view[OF i1] Get_view[OF i2] same_viewD[OF v] called_same_view[OF v] ..
  with v show ?thesis by (simp add: same_view_def)
qed

lemma same_view_Del:
  assumes i1: "cache_inv s1" and i2: "cache_inv s2" and v: "same_view s1 s2"
  shows "fst (Del s1 k) = fst (Del s2 k) \<and> same_view (snd (Del s1 k)) (snd (Del s2 k))"
proof -
  have "(fst (Del s1 k), entries (snd (Del s1 k)), world (snd (Del s1 k))) =
      (fst (Del s2 k), entries (snd (Del s2 k)), world (snd (Del s2 k)))"
    unfolding Del_view[OF i1] Del_view[OF i2] same_viewD[OF v] called_same_view[OF v] ..
  with v show ?thesis by (simp add: same_view_def)
qed

lemma same_view_Len:
  assumes i1: "cache_inv s1" and i2: "cache_inv s2" and v: "same_view s1 s2"
  shows "Len s1 = Len s2"
proof -
  from v have "length (entries s1) = length (entries s2)" by (simp add: same_view_def)
  then show ?thesis
    unfolding Len_inv[OF i1] Len_inv[OF i2] length_entries[OF i1] length_entries[OF i2] by simp
qed

lemma same_view_Close: "same_view s1 s2 \<Longrightarrow> same_view (Close s1) (Close s2)"
  by (simp add: same_view_def Close_def Init_def entries_def)

lemma cache_inv_do_call: "cache_inv s \<Longrightarrow> cache_inv (snd (do_call s c))"
  by (cases c)
     (simp_all add: Put_def cache_inv_PutWithTimeout cache_inv_Get cache_inv_Del cache_inv_Close)

lemma same_view_do_call:
  assumes i1: "cache_inv s1" and i2: "cache_inv s2" and v: "same_view s1 s2"
  shows "fst (do_call s1 c) = fst (do_call s2 c) \<and>
         same_view (snd (do_call s1 c)) (snd (do_call s2 c))"
proof (cases c)
  case (CallPut k x now)
  from v have "cacheTime s1 = cacheTime s2" by (simp add: same_view_def)
  with same_view_PutWithTimeout[OF i1 i2 v, of k x "cacheTime s1" now] CallPut
  show ?thesis by (simp add: Put_def)
next
  case (CallPutWithTimeout k x t now)
  with same_view_PutWithTimeout[OF i1 i2 v] show ?thesis by simp
next
  case (CallGet k now)
  with same_view_Get[OF i1 i2 v, of k now] show ?thesis by simp
next
  case (CallDel k)
  with same_view_Del[OF i1 i2 v, of k] show ?thesis by simp
next
  case CallLen
  with same_view_Len[OF i1 i2 v] v show ?thesis by simp
next
  case CallClose
  with same_view_Close[OF v] show ?thesis by simp
qed

lemma same_view_do_calls:
  assumes "cache_inv s1" "cache_inv s2" "same_view s1 s2"
  shows "fst (do_calls s1 cs) = fst (do_calls s2 cs) \<and>
         same_view (snd (do_calls s1 cs)) (snd (do_calls s2 cs))"
  using assms
proof (induction cs arbitrary: s1 s2)
  case Nil
  then show ?case by simp
next
  case (Cons c cs)
  from same_view_do_call[OF Cons.prems, of c]
  have r: "fst (do_call s1 c) = fst (do_call s2 c)"
    and v: "same_view (snd (do_call s1 c)) (snd (do_call s2 c))" by simp_all
  from Cons.IH[OF cache_inv_do_call[OF Cons.prems(1)] cache_inv_do_call[OF Cons.prems(2)] v] r
  show ?case by simp
qed

lemma reachable_cacheTime: "reachable s \<Longrightarrow> Millisecond \<le> cacheTime s"
proof (induction rule: reachable.induct)
  case (r_new config w)
  show ?case
    by (simp add: NewCacheWithConfig_def DefaultCacheTime_def Minute_def Second_def Millisecond_def)
qed (simp_all add: Put_def Close_def)

lemma same_view_Close_new:
  assumes r: "reachable s"
  shows "same_view (Close s)
    (NewCacheWithConfig \<lparr>MaxLen = maxLen s, Callback = onEvicted s, CacheTime = cacheTime s\<rparr> (world s))"
  using reachable_cacheTime[OF r]
  by (simp add: same_view_def Close_def Init_def NewCacheWithConfig_def entries_def
      List.map_filter_simps)

section \<open>The claims\<close>

subsection \<open>C2: the key index and the recency list stay in step\<close>



subsection \<open>C1: a read right after an insert\<close>




subsection \<open>C3: the capacity bound after an insert of a new key\<close>




subsection \<open>C4: lazy expiry in \<open>Get\<close>\<close>

text \<open>
  Claim C4. In a reachable state, \<open>Get\<close> of a key whose entry has a deadline strictly before
  the clock reading returns \<open>nil\<close> and \<open>false\<close>, and leaves the cache with the element
  unlinked from the list, the key deleted from the map and the callback (when there is
  one) called once, on the key and the stored value; nothing else changes. \<open>Get\<close> of a key
  that is not in the map returns \<open>nil\<close> and \<open>false\<close> and changes nothing. No other operation
  compares a deadline with the clock: \<open>Del\<close>, \<open>Len\<close> and \<open>Close\<close> do not read the clock at
  all, and \<open>PutWithTimeout\<close> (hence \<open>Put\<close>) run at two clock readings gives the same list,
  map, environment and the same keys and values of all entries, whatever the deadlines
  stored in the cache are.
\<close>

theorem get_expired:
  assumes r: "reachable s"
  shows "(\<forall>a e. fmlookup (hash s) k = Some a \<and> fmlookup (elems s) a = Some e \<and> deadTime e < now \<longrightarrow>
            Get s k now =
              ((None, False),
               s\<lparr>lst := remove1 a (lst s), hash := fmdrop k (hash s),
                 world := called s k (value e)\<rparr>) \<and>
            key e = k \<and> a \<in> set (lst s) \<and> a \<notin> set (remove1 a (lst s))) \<and>
         (fmlookup (hash s) k = None \<longrightarrow> Get s k now = ((None, False), s)) \<and>
         (\<forall>k' v t now1 now2.
            PutWithTimeout s k' v t now2 =
              (PutWithTimeout s k' v t now1)\<lparr>elems := elems (PutWithTimeout s k' v t now2)\<rparr> \<and>
            fmmap (\<lambda>e. (key e, value e)) (elems (PutWithTimeout s k' v t now2)) =
            fmmap (\<lambda>e. (key e, value e)) (elems (PutWithTimeout s k' v t now1)))"
proof (intro conjI allI impI)
  fix a e
  assume h: "fmlookup (hash s) k = Some a \<and> fmlookup (elems s) a = Some e \<and> deadTime e < now"
  from r have inv: "cache_inv s" by (rule reachable_inv)
  from h have a: "fmlookup (hash s) k = Some a" and e: "fmlookup (elems s) a = Some e"
    and x: "deadTime e < now" by simp_all
  show "Get s k now =
      ((None, False),
       s\<lparr>lst := remove1 a (lst s), hash := fmdrop k (hash s), world := called s k (value e)\<rparr>)"
    unfolding Get_expired[OF a e x] removeElem_present[OF inv a e] ..
  from inv_lookup[OF inv a] e show "key e = k" by auto
  from inv_lookup(1)[OF inv a] show "a \<in> set (lst s)" .
  from inv have "distinct (lst s)" by (simp add: cache_inv_def)
  then show "a \<notin> set (remove1 a (lst s))" by simp
next
  assume "fmlookup (hash s) k = None"
  then show "Get s k now = ((None, False), s)" by (rule Get_absent)
next
  fix k' v t now1 now2
  from PutWithTimeout_clock[of s k' v t now2 now1]
  show "PutWithTimeout s k' v t now2 =
      (PutWithTimeout s k' v t now1)\<lparr>elems := elems (PutWithTimeout s k' v t now2)\<rparr>"
    and "fmmap (\<lambda>e. (key e, value e)) (elems (PutWithTimeout s k' v t now2)) =
      fmmap (\<lambda>e. (key e, value e)) (elems (PutWithTimeout s k' v t now1))"
    by simp_all
qed

theorem get_expired_witness:
  "reachable (PutWithTimeout
      (NewCacheWithConfig \<lparr>MaxLen = 2, Callback = Some (\<lambda>k v w. w @ [(k, v)]), CacheTime = Minute\<rparr> [])
      (1::nat) (Some (10::nat)) Second 0) \<and>
   fmlookup (hash (PutWithTimeout
      (NewCacheWithConfig \<lparr>MaxLen = 2, Callback = Some (\<lambda>k v w. w @ [(k, v)]), CacheTime = Minute\<rparr> [])
      (1::nat) (Some (10::nat)) Second 0)) 1 = Some 0 \<and>
   fmlookup (elems (PutWithTimeout
      (NewCacheWithConfig \<lparr>MaxLen = 2, Callback = Some (\<lambda>k v w. w @ [(k, v)]), CacheTime = Minute\<rparr> [])
      (1::nat) (Some (10::nat)) Second 0)) 0 = Some \<lparr>key = 1, value = Some 10, deadTime = 1000000000\<rparr> \<and>
   fmlookup (hash (PutWithTimeout
      (NewCacheWithConfig \<lparr>MaxLen = 2, Callback = Some (\<lambda>k v w. w @ [(k, v)]), CacheTime = Minute\<rparr> [])
      (1::nat) (Some (10::nat)) Second 0)) 2 = None \<and>
   fst (Get (PutWithTimeout
      (NewCacheWithConfig \<lparr>MaxLen = 2, Callback = Some (\<lambda>k v w. w @ [(k, v)]), CacheTime = Minute\<rparr> [])
      (1::nat) (Some (10::nat)) Second 0) 1 1000000001) = (None, False) \<and>
   world (snd (Get (PutWithTimeout
      (NewCacheWithConfig \<lparr>MaxLen = 2, Callback = Some (\<lambda>k v w. w @ [(k, v)]), CacheTime = Minute\<rparr> [])
      (1::nat) (Some (10::nat)) Second 0) 1 1000000001)) = [(1, Some 10)] \<and>
   lst (snd (Get (PutWithTimeout
      (NewCacheWithConfig \<lparr>MaxLen = 2, Callback = Some (\<lambda>k v w. w @ [(k, v)]), CacheTime = Minute\<rparr> [])
      (1::nat) (Some (10::nat)) Second 0) 1 1000000001)) = [] \<and>
   Len (snd (Get (PutWithTimeout
      (NewCacheWithConfig \<lparr>MaxLen = 2, Callback = Some (\<lambda>k v w. w @ [(k, v)]), CacheTime = Minute\<rparr> [])
      (1::nat) (Some (10::nat)) Second 0) 1 1000000001)) = 0 \<and>
   fst (Get (PutWithTimeout
      (NewCacheWithConfig \<lparr>MaxLen = 2, Callback = Some (\<lambda>k v w. w @ [(k, v)]), CacheTime = Minute\<rparr> [])
      (1::nat) (Some (10::nat)) Second 0) 2 1000000001) = (None, False)"
proof -
  let ?s = "PutWithTimeout
      (NewCacheWithConfig \<lparr>MaxLen = 2, Callback = Some (\<lambda>k v w. w @ [(k, v)]), CacheTime = Minute\<rparr> [])
      (1::nat) (Some (10::nat)) Second 0"
  have r: "reachable ?s" by (intro reachable.intros)
  have a: "fmlookup (hash ?s) 1 = Some 0" by (simp add: eval_defs)
  have e: "fmlookup (elems ?s) 0 = Some \<lparr>key = 1, value = Some 10, deadTime = 1000000000\<rparr>"
    by (simp add: eval_defs)
  have n: "fmlookup (hash ?s) 2 = None" by (simp add: eval_defs)
  have l: "lst ?s = [0]" by (simp add: eval_defs)
  have h: "hash ?s = fmupd 1 0 fmempty" by (simp add: eval_defs)
  have w: "called ?s 1 (Some 10) = [(1, Some 10)]" by (simp add: eval_defs)
  from get_expired[OF r, of 1 1000000001] a e
  have g: "Get ?s 1 1000000001 =
     ((None, False), ?s\<lparr>lst := remove1 0 (lst ?s), hash := fmdrop 1 (hash ?s),
        world := called ?s 1 (Some 10)\<rparr>)"
    by simp
  from get_expired[OF r, of 2 1000000001] n
  have g2: "Get ?s 2 1000000001 = ((None, False), ?s)" by simp
  have "fst (Get ?s 1 1000000001) = (None, False)" unfolding g by simp
  moreover have "world (snd (Get ?s 1 1000000001)) = [(1, Some 10)]" unfolding g using w by simp
  moreover have "lst (snd (Get ?s 1 1000000001)) = []" unfolding g using l by simp
  moreover have "Len (snd (Get ?s 1 1000000001)) = 0" unfolding g using h
    by (simp add: Len_def len_hash_def fmdrop_fmupd)
  moreover have "fst (Get ?s 2 1000000001) = (None, False)" unfolding g2 by simp
  ultimately show ?thesis using r a e n by blast
qed

subsection \<open>C6: the duration is at least one second\<close>

text \<open>
  Claim C6. For every key, value and duration \<open>t\<close>: \<open>PutWithTimeout\<close> with \<open>t\<close> below one
  second is \<open>PutWithTimeout\<close> with one second; in a reachable state the entry the key leads
  to after the call has the deadline \<open>now + max t Second\<close>, which is at least one second
  after \<open>now\<close>; and when \<open>maxLen \<ge> 1\<close> a \<open>Get\<close> at any clock reading up to the deadline
  finds the value, one after the deadline does not.
\<close>

theorem ttl_at_least_one_second:
  "(t < Second \<longrightarrow> PutWithTimeout s k v t now = PutWithTimeout s k v Second now) \<and>
   (reachable s \<longrightarrow>
      (\<forall>a. fmlookup (hash (PutWithTimeout s k v t now)) k = Some a \<longrightarrow>
         fmlookup (elems (PutWithTimeout s k v t now)) a =
           Some \<lparr>key = k, value = v, deadTime = now + max t Second\<rparr>)) \<and>
   now + Second \<le> now + max t Second \<and>
   (reachable s \<and> 1 \<le> maxLen s \<longrightarrow>
      (\<forall>now'. fst (Get (PutWithTimeout s k v t now) k now') =
         (if now + max t Second < now' then (None, False) else (v, True))))"
proof (intro conjI impI allI)
  assume "t < Second"
  then show "PutWithTimeout s k v t now = PutWithTimeout s k v Second now"
    by (simp add: PutWithTimeout_def)
next
  fix a
  assume r: "reachable s" and a: "fmlookup (hash (PutWithTimeout s k v t now)) k = Some a"
  from PutWithTimeout_entry[OF reachable_inv[OF r] a]
  show "fmlookup (elems (PutWithTimeout s k v t now)) a =
      Some \<lparr>key = k, value = v, deadTime = now + max t Second\<rparr>"
    by (simp only: max_ttl)
next
  show "now + Second \<le> now + max t Second" by simp
next
  fix now'
  assume "reachable s \<and> 1 \<le> maxLen s"
  then have inv: "cache_inv s" and m: "1 \<le> maxLen s" by (simp_all add: reachable_inv)
  let ?s' = "PutWithTimeout s k v t now"
  from PutWithTimeout_present[OF inv m] obtain a where a: "fmlookup (hash ?s') k = Some a"
    by blast
  have e: "fmlookup (elems ?s') a = Some \<lparr>key = k, value = v, deadTime = now + max t Second\<rparr>"
    using PutWithTimeout_entry[OF inv a] by (simp only: max_ttl)
  show "fst (Get ?s' k now') = (if now + max t Second < now' then (None, False) else (v, True))"
  proof (cases "now + max t Second < now'")
    case True
    then have x: "deadTime \<lparr>key = k, value = v, deadTime = now + max t Second\<rparr> < now'" by simp
    from True show ?thesis unfolding Get_expired[OF a e x] by simp
  next
    case False
    then have x: "\<not> deadTime \<lparr>key = k, value = v, deadTime = now + max t Second\<rparr> < now'" by simp
    from False show ?thesis unfolding Get_live[OF a e x] by simp
  qed
qed

theorem ttl_at_least_one_second_witness:
  "Millisecond < Second \<and>
   reachable (NewCacheWithConfig \<lparr>MaxLen = 2, Callback = None, CacheTime = Minute\<rparr> ()
      :: (nat, nat, unit) lruCache) \<and>
   1 \<le> maxLen (NewCacheWithConfig \<lparr>MaxLen = 2, Callback = None, CacheTime = Minute\<rparr> ()
      :: (nat, nat, unit) lruCache) \<and>
   PutWithTimeout (NewCacheWithConfig \<lparr>MaxLen = 2, Callback = None, CacheTime = Minute\<rparr> ())
      (1::nat) (Some (10::nat)) Millisecond 0 =
   PutWithTimeout (NewCacheWithConfig \<lparr>MaxLen = 2, Callback = None, CacheTime = Minute\<rparr> ())
      (1::nat) (Some (10::nat)) Second 0 \<and>
   fmlookup (hash (PutWithTimeout (NewCacheWithConfig \<lparr>MaxLen = 2, Callback = None, CacheTime = Minute\<rparr> ())
      (1::nat) (Some (10::nat)) Millisecond 0)) 1 = Some 0 \<and>
   fmlookup (elems (PutWithTimeout (NewCacheWithConfig \<lparr>MaxLen = 2, Callback = None, CacheTime = Minute\<rparr> ())
      (1::nat) (Some (10::nat)) Millisecond 0)) 0 = Some \<lparr>key = 1, value = Some 10, deadTime = 1000000000\<rparr> \<and>
   fst (Get (PutWithTimeout (NewCacheWithConfig \<lparr>MaxLen = 2, Callback = None, CacheTime = Minute\<rparr> ())
      (1::nat) (Some (10::nat)) Millisecond 0) 1 0) = (Some 10, True) \<and>
   fst (Get (PutWithTimeout (NewCacheWithConfig \<lparr>MaxLen = 2, Callback = None, CacheTime = Minute\<rparr> ())
      (1::nat) (Some (10::nat)) Millisecond 0) 1 1200000000) = (None, False)"
proof -
  let ?s = "NewCacheWithConfig \<lparr>MaxLen = 2, Callback = None, CacheTime = Minute\<rparr> ()
      :: (nat, nat, unit) lruCache"
  have lt: "Millisecond < Second" by (simp add: Millisecond_def Second_def)
  have r: "reachable ?s" by (rule r_new)
  have m: "1 \<le> maxLen ?s" by (simp add: NewCacheWithConfig_def)
  have a: "fmlookup (hash (PutWithTimeout ?s 1 (Some 10) Millisecond 0)) 1 = Some 0"
    by (simp add: eval_defs)
  have mx: "0 + max Millisecond Second = 1000000000" by (simp add: Millisecond_def Second_def)
  note T = ttl_at_least_one_second[of Millisecond ?s 1 "Some 10" 0]
  from T lt have "PutWithTimeout ?s 1 (Some 10) Millisecond 0 = PutWithTimeout ?s 1 (Some 10) Second 0"
    by blast
  moreover have "fmlookup (elems (PutWithTimeout ?s 1 (Some 10) Millisecond 0)) 0 =
      Some \<lparr>key = 1, value = Some 10, deadTime = 1000000000\<rparr>"
    using T r a unfolding mx by blast
  moreover from T r m have g: "fst (Get (PutWithTimeout ?s 1 (Some 10) Millisecond 0) 1 now') =
         (if 0 + max Millisecond Second < now' then (None, False) else (Some 10, True))" for now'
    by blast
  have "fst (Get (PutWithTimeout ?s 1 (Some 10) Millisecond 0) 1 0) = (Some 10, True)"
    using g[of 0] unfolding mx by simp
  moreover
  have "fst (Get (PutWithTimeout ?s 1 (Some 10) Millisecond 0) 1 1200000000) = (None, False)"
    using g[of 1200000000] unfolding mx by simp
  ultimately show ?thesis using lt r m a by blast
qed

subsection \<open>C7: a successful \<open>Get\<close> only promotes\<close>

text \<open>
  Claim C7. In a reachable state, \<open>Get\<close> of a key whose entry has not expired returns the
  stored value and \<open>true\<close>, and the cache after it is the cache before it with the element
  moved to the front of the list: the heap of entries (every value and every deadline,
  this entry's and the others'), the map, the environment of the callback and the
  configuration are unchanged, the list has the same elements in the same relative order
  apart from the promoted one, and the number of entries is the same.
\<close>

theorem get_live_only_promotes:
  assumes r: "reachable s" and a: "fmlookup (hash s) k = Some a"
    and e: "fmlookup (elems s) a = Some e" and live: "\<not> deadTime e < now"
  shows "Get s k now = ((value e, True), s\<lparr>lst := a # remove1 a (lst s)\<rparr>) \<and>
         elems (snd (Get s k now)) = elems s \<and>
         hash (snd (Get s k now)) = hash s \<and>
         world (snd (Get s k now)) = world s \<and>
         fmlookup (elems (snd (Get s k now))) a = Some e \<and>
         set (lst (snd (Get s k now))) = set (lst s) \<and>
         remove1 a (lst (snd (Get s k now))) = remove1 a (lst s) \<and>
         Len (snd (Get s k now)) = Len s"
proof -
  from r have inv: "cache_inv s" by (rule reachable_inv)
  from inv_lookup(1)[OF inv a] have m: "MoveToFront a (lst s) = a # remove1 a (lst s)"
    by (simp add: MoveToFront_def)
  have g: "Get s k now = ((value e, True), s\<lparr>lst := a # remove1 a (lst s)\<rparr>)"
    unfolding Get_live[OF a e live] m ..
  have "set (a # remove1 a (lst s)) = set (lst s)"
    using set_MoveToFront[of a "lst s"] unfolding m .
  with e show ?thesis unfolding g by (simp add: Len_def len_hash_def)
qed

theorem get_live_only_promotes_witness:
  "reachable (Put (Put (NewCacheWithConfig \<lparr>MaxLen = 2, Callback = None, CacheTime = Minute\<rparr> ())
      (1::nat) (Some (10::nat)) 0) 2 (Some 20) 5) \<and>
   fmlookup (hash (Put (Put (NewCacheWithConfig \<lparr>MaxLen = 2, Callback = None, CacheTime = Minute\<rparr> ())
      (1::nat) (Some (10::nat)) 0) 2 (Some 20) 5)) 1 = Some 0 \<and>
   fmlookup (elems (Put (Put (NewCacheWithConfig \<lparr>MaxLen = 2, Callback = None, CacheTime = Minute\<rparr> ())
      (1::nat) (Some (10::nat)) 0) 2 (Some 20) 5)) 0 =
      Some \<lparr>key = 1, value = Some 10, deadTime = 60000000000\<rparr> \<and>
   \<not> deadTime \<lparr>key = 1::nat, value = Some (10::nat), deadTime = 60000000000\<rparr> < 7 \<and>
   lst (Put (Put (NewCacheWithConfig \<lparr>MaxLen = 2, Callback = None, CacheTime = Minute\<rparr> ())
      (1::nat) (Some (10::nat)) 0) 2 (Some 20) 5) = [1, 0] \<and>
   fst (Get (Put (Put (NewCacheWithConfig \<lparr>MaxLen = 2, Callback = None, CacheTime = Minute\<rparr> ())
      (1::nat) (Some (10::nat)) 0) 2 (Some 20) 5) 1 7) = (Some 10, True) \<and>
   lst (snd (Get (Put (Put (NewCacheWithConfig \<lparr>MaxLen = 2, Callback = None, CacheTime = Minute\<rparr> ())
      (1::nat) (Some (10::nat)) 0) 2 (Some 20) 5) 1 7)) = [0, 1] \<and>
   fmlookup (elems (snd (Get (Put (Put (NewCacheWithConfig \<lparr>MaxLen = 2, Callback = None, CacheTime = Minute\<rparr> ())
      (1::nat) (Some (10::nat)) 0) 2 (Some 20) 5) 1 7))) 0 =
      Some \<lparr>key = 1, value = Some 10, deadTime = 60000000000\<rparr>"
proof -
  let ?s = "Put (Put (NewCacheWithConfig \<lparr>MaxLen = 2, Callback = None, CacheTime = Minute\<rparr> ())
      (1::nat) (Some (10::nat)) 0) 2 (Some 20) 5"
  have r: "reachable ?s" by (intro reachable.intros)
  have a: "fmlookup (hash ?s) 1 = Some 0" by (simp add: eval_defs)
  have e: "fmlookup (elems ?s) 0 = Some \<lparr>key = 1, value = Some 10, deadTime = 60000000000\<rparr>"
    by (simp add: eval_defs)
  have live: "\<not> deadTime \<lparr>key = 1::nat, value = Some (10::nat), deadTime = 60000000000\<rparr> < 7"
    by simp
  have l: "lst ?s = [1, 0]" by (simp add: eval_defs)
  note T = get_live_only_promotes[OF r a e live]
  from T have "fst (Get ?s 1 7) = (Some 10, True)" by simp
  moreover from T l have "lst (snd (Get ?s 1 7)) = [0, 1]" by simp
  moreover from T have "fmlookup (elems (snd (Get ?s 1 7))) 0 =
      Some \<lparr>key = 1, value = Some 10, deadTime = 60000000000\<rparr>" by blast
  ultimately show ?thesis using r a e live l by blast
qed

subsection \<open>C8: \<open>Del\<close>\<close>

text \<open>
  Claim C8. In a reachable state, for every key \<open>k\<close>: when \<open>k\<close> is in the map it leads to
  an element with an entry for \<open>k\<close>, and \<open>Del\<close> returns the stored value and leaves the
  cache with the element unlinked, the key deleted and the callback (when there is one)
  called once on the key and the stored value; when \<open>k\<close> is not in the map \<open>Del\<close> returns
  \<open>nil\<close> and the cache is unchanged. The result is a value and nothing else: a key that is
  present with the value \<open>nil\<close> and a key that is absent both give \<open>nil\<close>.
\<close>

theorem del_result:
  assumes r: "reachable s"
  shows "(\<forall>a. fmlookup (hash s) k = Some a \<longrightarrow>
            (\<exists>e. fmlookup (elems s) a = Some e \<and> key e = k \<and>
               Del s k =
                 (value e,
                  s\<lparr>lst := remove1 a (lst s), hash := fmdrop k (hash s),
                    world := called s k (value e)\<rparr>) \<and>
               a \<in> set (lst s) \<and> a \<notin> set (lst (snd (Del s k))) \<and>
               fmlookup (hash (snd (Del s k))) k = None \<and>
               fst (Get (snd (Del s k)) k now) = (None, False))) \<and>
         (fmlookup (hash s) k = None \<longrightarrow> Del s k = (None, s))"
proof (intro conjI allI impI)
  fix a
  assume a: "fmlookup (hash s) k = Some a"
  from r have inv: "cache_inv s" by (rule reachable_inv)
  from inv_lookup[OF inv a] obtain e where al: "a \<in> set (lst s)"
    and e: "fmlookup (elems s) a = Some e" and ke: "key e = k" by auto
  have d: "Del s k =
      (value e, s\<lparr>lst := remove1 a (lst s), hash := fmdrop k (hash s),
         world := called s k (value e)\<rparr>)"
    unfolding Del_present[OF a e] removeElem_present[OF inv a e] ..
  from inv have "distinct (lst s)" by (simp add: cache_inv_def)
  then have "a \<notin> set (lst (snd (Del s k)))" unfolding d by simp
  moreover have h: "fmlookup (hash (snd (Del s k))) k = None" unfolding d by simp
  moreover have "fst (Get (snd (Del s k)) k now) = (None, False)"
    unfolding Get_absent[OF h] by simp
  ultimately show "\<exists>e. fmlookup (elems s) a = Some e \<and> key e = k \<and>
       Del s k =
         (value e, s\<lparr>lst := remove1 a (lst s), hash := fmdrop k (hash s),
            world := called s k (value e)\<rparr>) \<and>
       a \<in> set (lst s) \<and> a \<notin> set (lst (snd (Del s k))) \<and>
       fmlookup (hash (snd (Del s k))) k = None \<and>
       fst (Get (snd (Del s k)) k now) = (None, False)"
    using e ke d al by blast
next
  assume "fmlookup (hash s) k = None"
  then show "Del s k = (None, s)" by (rule Del_absent)
qed

theorem del_result_witness:
  "reachable (Put (Put
      (NewCacheWithConfig \<lparr>MaxLen = 2, Callback = Some (\<lambda>k v w. w @ [(k, v)]), CacheTime = Minute\<rparr> [])
      (1::nat) (Some (10::nat)) 0) 2 None 5) \<and>
   fmlookup (hash (Put (Put
      (NewCacheWithConfig \<lparr>MaxLen = 2, Callback = Some (\<lambda>k v w. w @ [(k, v)]), CacheTime = Minute\<rparr> [])
      (1::nat) (Some (10::nat)) 0) 2 None 5)) 1 = Some 0 \<and>
   fmlookup (hash (Put (Put
      (NewCacheWithConfig \<lparr>MaxLen = 2, Callback = Some (\<lambda>k v w. w @ [(k, v)]), CacheTime = Minute\<rparr> [])
      (1::nat) (Some (10::nat)) 0) 2 None 5)) 2 = Some 1 \<and>
   fmlookup (hash (Put (Put
      (NewCacheWithConfig \<lparr>MaxLen = 2, Callback = Some (\<lambda>k v w. w @ [(k, v)]), CacheTime = Minute\<rparr> [])
      (1::nat) (Some (10::nat)) 0) 2 None 5)) 3 = None \<and>
   fst (Del (Put (Put
      (NewCacheWithConfig \<lparr>MaxLen = 2, Callback = Some (\<lambda>k v w. w @ [(k, v)]), CacheTime = Minute\<rparr> [])
      (1::nat) (Some (10::nat)) 0) 2 None 5) 1) = Some 10 \<and>
   world (snd (Del (Put (Put
      (NewCacheWithConfig \<lparr>MaxLen = 2, Callback = Some (\<lambda>k v w. w @ [(k, v)]), CacheTime = Minute\<rparr> [])
      (1::nat) (Some (10::nat)) 0) 2 None 5) 1)) = [(1, Some 10)] \<and>
   fst (Get (snd (Del (Put (Put
      (NewCacheWithConfig \<lparr>MaxLen = 2, Callback = Some (\<lambda>k v w. w @ [(k, v)]), CacheTime = Minute\<rparr> [])
      (1::nat) (Some (10::nat)) 0) 2 None 5) 1)) 1 6) = (None, False) \<and>
   fst (Del (Put (Put
      (NewCacheWithConfig \<lparr>MaxLen = 2, Callback = Some (\<lambda>k v w. w @ [(k, v)]), CacheTime = Minute\<rparr> [])
      (1::nat) (Some (10::nat)) 0) 2 None 5) 2) = None \<and>
   world (snd (Del (Put (Put
      (NewCacheWithConfig \<lparr>MaxLen = 2, Callback = Some (\<lambda>k v w. w @ [(k, v)]), CacheTime = Minute\<rparr> [])
      (1::nat) (Some (10::nat)) 0) 2 None 5) 2)) = [(2, None)] \<and>
   Del (Put (Put
      (NewCacheWithConfig \<lparr>MaxLen = 2, Callback = Some (\<lambda>k v w. w @ [(k, v)]), CacheTime = Minute\<rparr> [])
      (1::nat) (Some (10::nat)) 0) 2 None 5) 3 =
   (None, Put (Put
      (NewCacheWithConfig \<lparr>MaxLen = 2, Callback = Some (\<lambda>k v w. w @ [(k, v)]), CacheTime = Minute\<rparr> [])
      (1::nat) (Some (10::nat)) 0) 2 None 5)"
proof -
  let ?s = "Put (Put
      (NewCacheWithConfig \<lparr>MaxLen = 2, Callback = Some (\<lambda>k v w. w @ [(k, v)]), CacheTime = Minute\<rparr> [])
      (1::nat) (Some (10::nat)) 0) 2 None 5"
  have r: "reachable ?s" by (intro reachable.intros)
  have a1: "fmlookup (hash ?s) 1 = Some 0" by (simp add: eval_defs)
  have a2: "fmlookup (hash ?s) 2 = Some 1" by (simp add: eval_defs)
  have a3: "fmlookup (hash ?s) 3 = None" by (simp add: eval_defs)
  have e1: "fmlookup (elems ?s) 0 = Some \<lparr>key = 1, value = Some 10, deadTime = 60000000000\<rparr>"
    by (simp add: eval_defs)
  have e2: "fmlookup (elems ?s) 1 = Some \<lparr>key = 2, value = None, deadTime = 60000000005\<rparr>"
    by (simp add: eval_defs)
  have w1: "called ?s 1 (Some 10) = [(1, Some 10)]" by (simp add: eval_defs)
  have w2: "called ?s 2 None = [(2, None)]" by (simp add: eval_defs)
  from del_result[OF r, of 1 6] a1 e1
  have d1: "Del ?s 1 = (Some 10, ?s\<lparr>lst := remove1 0 (lst ?s), hash := fmdrop 1 (hash ?s),
      world := called ?s 1 (Some 10)\<rparr>)"
    and g1: "fst (Get (snd (Del ?s 1)) 1 6) = (None, False)"
    by auto
  from del_result[OF r, of 2 6] a2 e2
  have d2: "Del ?s 2 = (None, ?s\<lparr>lst := remove1 1 (lst ?s), hash := fmdrop 2 (hash ?s),
      world := called ?s 2 None\<rparr>)"
    by auto
  from del_result[OF r, of 3 6] a3 have d3: "Del ?s 3 = (None, ?s)" by blast
  have "fst (Del ?s 1) = Some 10" unfolding d1 by simp
  moreover have "world (snd (Del ?s 1)) = [(1, Some 10)]" unfolding d1 using w1 by simp
  moreover have "fst (Del ?s 2) = None" unfolding d2 by simp
  moreover have "world (snd (Del ?s 2)) = [(2, None)]" unfolding d2 using w2 by simp
  ultimately show ?thesis using r a1 a2 a3 g1 d3 by blast
qed

subsection \<open>C10: \<open>Del\<close> does not look at the deadline\<close>

text \<open>
  Claim C10. In a reachable state, for every key that is in the map and whose entry has a
  deadline before the clock reading \<open>now\<close> (so that \<open>Get\<close> at \<open>now\<close> reports it as not found),
  \<open>Del\<close> returns the stored value of the entry and calls the callback (when there is one)
  on the key and that value.
\<close>

theorem del_expired_returns_value:
  assumes r: "reachable s" and a: "fmlookup (hash s) k = Some a"
    and e: "fmlookup (elems s) a = Some e" and x: "deadTime e < now"
  shows "fst (Del s k) = value e \<and>
         world (snd (Del s k)) = called s k (value e) \<and>
         fmlookup (hash (snd (Del s k))) k = None \<and>
         fst (Get s k now) = (None, False)"
proof -
  from r have inv: "cache_inv s" by (rule reachable_inv)
  have d: "Del s k =
      (value e, s\<lparr>lst := remove1 a (lst s), hash := fmdrop k (hash s),
         world := called s k (value e)\<rparr>)"
    unfolding Del_present[OF a e] removeElem_present[OF inv a e] ..
  have g: "fst (Get s k now) = (None, False)" unfolding Get_expired[OF a e x] by simp
  from g show ?thesis unfolding d by simp
qed

theorem del_expired_returns_value_witness:
  "reachable (PutWithTimeout
      (NewCacheWithConfig \<lparr>MaxLen = 2, Callback = Some (\<lambda>k v w. w @ [(k, v)]), CacheTime = Minute\<rparr> [])
      (1::nat) (Some (10::nat)) Second 0) \<and>
   fmlookup (hash (PutWithTimeout
      (NewCacheWithConfig \<lparr>MaxLen = 2, Callback = Some (\<lambda>k v w. w @ [(k, v)]), CacheTime = Minute\<rparr> [])
      (1::nat) (Some (10::nat)) Second 0)) 1 = Some 0 \<and>
   fmlookup (elems (PutWithTimeout
      (NewCacheWithConfig \<lparr>MaxLen = 2, Callback = Some (\<lambda>k v w. w @ [(k, v)]), CacheTime = Minute\<rparr> [])
      (1::nat) (Some (10::nat)) Second 0)) 0 = Some \<lparr>key = 1, value = Some 10, deadTime = 1000000000\<rparr> \<and>
   deadTime \<lparr>key = 1::nat, value = Some (10::nat), deadTime = 1000000000\<rparr> < 5000000000 \<and>
   fst (Del (PutWithTimeout
      (NewCacheWithConfig \<lparr>MaxLen = 2, Callback = Some (\<lambda>k v w. w @ [(k, v)]), CacheTime = Minute\<rparr> [])
      (1::nat) (Some (10::nat)) Second 0) 1) = Some 10 \<and>
   world (snd (Del (PutWithTimeout
      (NewCacheWithConfig \<lparr>MaxLen = 2, Callback = Some (\<lambda>k v w. w @ [(k, v)]), CacheTime = Minute\<rparr> [])
      (1::nat) (Some (10::nat)) Second 0) 1)) = [(1, Some 10)] \<and>
   fst (Get (PutWithTimeout
      (NewCacheWithConfig \<lparr>MaxLen = 2, Callback = Some (\<lambda>k v w. w @ [(k, v)]), CacheTime = Minute\<rparr> [])
      (1::nat) (Some (10::nat)) Second 0) 1 5000000000) = (None, False)"
proof -
  let ?s = "PutWithTimeout
      (NewCacheWithConfig \<lparr>MaxLen = 2, Callback = Some (\<lambda>k v w. w @ [(k, v)]), CacheTime = Minute\<rparr> [])
      (1::nat) (Some (10::nat)) Second 0"
  have r: "reachable ?s" by (intro reachable.intros)
  have a: "fmlookup (hash ?s) 1 = Some 0" by (simp add: eval_defs)
  have e: "fmlookup (elems ?s) 0 = Some \<lparr>key = 1, value = Some 10, deadTime = 1000000000\<rparr>"
    by (simp add: eval_defs)
  have x: "deadTime \<lparr>key = 1::nat, value = Some (10::nat), deadTime = 1000000000\<rparr> < 5000000000"
    by simp
  have w: "called ?s 1 (Some 10) = [(1, Some 10)]" by (simp add: eval_defs)
  note T = del_expired_returns_value[OF r a e x]
  from T have "fst (Del ?s 1) = Some 10" by simp
  moreover from T w have "world (snd (Del ?s 1)) = [(1, Some 10)]" by simp
  moreover from T have "fst (Get ?s 1 5000000000) = (None, False)" by blast
  ultimately show ?thesis using r a e x by blast
qed

subsection \<open>C5: the least recently used entry is the one evicted\<close>

text \<open>
  Claim C5. On a constructed cache with \<open>maxLen = 2\<close> and three different keys \<open>A\<close>, \<open>B\<close>,
  \<open>C\<close>: after \<open>Put A\<close>, \<open>Put B\<close>, \<open>Get A\<close>, \<open>Put C\<close>, with no deadline passed at the reads
  (the read of \<open>A\<close> at \<open>t3\<close> and the final reads at \<open>t5\<close> are not after the deadlines of
  the entries they read), the read of \<open>A\<close> in the middle found it, the cache holds two
  entries, the callback (when there is one) was called once, on \<open>B\<close>, and the final reads
  find \<open>A\<close> and \<open>C\<close> and do not find \<open>B\<close>, each on its own and one after the other.
\<close>

theorem lru_scenario:
  fixes A B C :: 'k and va vb vc :: "'v Value" and cfg :: "('k, 'v, 'w) Config" and w :: 'w
    and t1 t2 t3 t4 t5 :: Time
  defines "s0 \<equiv> NewCacheWithConfig cfg w"
  defines "s1 \<equiv> Put s0 A va t1"
  defines "s2 \<equiv> Put s1 B vb t2"
  defines "s3 \<equiv> snd (Get s2 A t3)"
  defines "s4 \<equiv> Put s3 C vc t4"
  assumes m: "MaxLen cfg = 2" and ne: "A \<noteq> B" "A \<noteq> C" "B \<noteq> C"
    and live: "\<not> t1 + max (cacheTime s0) Second < t3"
              "\<not> t1 + max (cacheTime s0) Second < t5"
              "\<not> t4 + max (cacheTime s0) Second < t5"
  shows "fst (Get s2 A t3) = (va, True) \<and>
         Len s4 = 2 \<and>
         world s4 = called s0 B vb \<and>
         fst (Get s4 A t5) = (va, True) \<and>
         fst (Get s4 B t5) = (None, False) \<and>
         fst (Get s4 C t5) = (vc, True) \<and>
         fst (Get (snd (Get s4 A t5)) B t5) = (None, False) \<and>
         fst (Get (snd (Get (snd (Get s4 A t5)) B t5)) C t5) = (vc, True)"
proof -
  let ?d = "max (cacheTime s0) Second"
  have ttl: "(if cacheTime s0 < Second then Second else cacheTime s0) = ?d"
    by (simp add: max_def)
  have c0: "maxLen s0 = 2" "lst s0 = []" "hash s0 = fmempty" "elems s0 = fmempty" "nextElem s0 = 0"
    using m by (simp_all add: s0_def NewCacheWithConfig_def)
  have e1: "s1 = s0\<lparr>lst := [0], elems := fmupd 0 \<lparr>key = A, value = va, deadTime = t1 + ?d\<rparr> fmempty,
      nextElem := 1, hash := fmupd A 0 fmempty\<rparr>"
    unfolding s1_def Put_def PutWithTimeout_def ttl
    using c0 by (simp add: Let_def PushFront_def lazyRemoveOldest_def len_hash_def fcard_finsert_if fcard_fempty)
  have e2: "s2 = s0\<lparr>lst := [1, 0],
      elems := fmupd 1 \<lparr>key = B, value = vb, deadTime = t2 + ?d\<rparr>
                (fmupd 0 \<lparr>key = A, value = va, deadTime = t1 + ?d\<rparr> fmempty),
      nextElem := 2, hash := fmupd B 1 (fmupd A 0 fmempty)\<rparr>"
    unfolding s2_def Put_def PutWithTimeout_def e1
    using c0 ne ttl
    by (simp add: Let_def PushFront_def lazyRemoveOldest_def len_hash_def fcard_finsert_if fcard_fempty)
  have g3: "Get s2 A t3 = ((va, True), s2\<lparr>lst := [0, 1]\<rparr>)"
    unfolding Get_def e2 using ne live by (simp add: MoveToFront_def)
  have e3: "s3 = s0\<lparr>lst := [0, 1],
      elems := fmupd 1 \<lparr>key = B, value = vb, deadTime = t2 + ?d\<rparr>
                (fmupd 0 \<lparr>key = A, value = va, deadTime = t1 + ?d\<rparr> fmempty),
      nextElem := 2, hash := fmupd B 1 (fmupd A 0 fmempty)\<rparr>"
    using g3 unfolding s3_def e2 by simp
  have r3: "reachable s3"
    unfolding s3_def s2_def s1_def s0_def by (intro reachable.intros)
  have c3: "cacheTime s3 = cacheTime s0" "maxLen s3 = 2" "nextElem s3 = 2" "lst s3 = [0, 1]"
    using c0 unfolding e3 by simp_all
  have k3: "fmlookup (hash s3) C = None" unfolding e3 using ne by simp
  have b3: "fmlookup (elems s3) (last (lst s3)) = Some \<lparr>key = B, value = vb, deadTime = t2 + ?d\<rparr>"
    unfolding e3 by simp
  have o3: "maxLen s3 < int (length (lst s3)) + 1" "lst s3 \<noteq> []"
    unfolding c3 by simp_all
  have w3: "called s3 B vb = called s0 B vb"
    unfolding e3 by (rule called_frame) simp_all
  have "s4 = s3\<lparr>lst := [2, 0],
      elems := fmupd 2 \<lparr>key = C, value = vc, deadTime = t4 + ?d\<rparr> (elems s3),
      nextElem := 3, hash := fmdrop B (fmupd C 2 (hash s3)),
      world := called s0 B vb\<rparr>"
    unfolding s4_def Put_def
      PutWithTimeout_new_evicts[OF reachable_inv[OF r3] k3 o3 b3] c3 ttl
    by (simp add: w3)
  then have e4: "s4 = s0\<lparr>lst := [2, 0],
      elems := fmupd 2 \<lparr>key = C, value = vc, deadTime = t4 + ?d\<rparr>
                (fmupd 1 \<lparr>key = B, value = vb, deadTime = t2 + ?d\<rparr>
                  (fmupd 0 \<lparr>key = A, value = va, deadTime = t1 + ?d\<rparr> fmempty)),
      nextElem := 3, hash := fmupd C 2 (fmupd A 0 fmempty),
      world := called s0 B vb\<rparr>"
    unfolding e3 using ne by (simp add: fmdrop_fmupd)
  have l4: "Len s4 = 2"
    unfolding e4 using ne by (simp add: Len_def len_hash_def fcard_finsert_if fcard_fempty)
  have gA: "Get s4 A t5 = ((va, True), s4\<lparr>lst := [0, 2]\<rparr>)"
    unfolding Get_def e4 using ne live by (simp add: MoveToFront_def)
  have gB: "Get s4 B t5 = ((None, False), s4)"
    unfolding Get_def e4 using ne by simp
  have gC: "Get s4 C t5 = ((vc, True), s4\<lparr>lst := [2, 0]\<rparr>)"
    unfolding Get_def e4 using ne live by (simp add: MoveToFront_def)
  have gB': "Get (s4\<lparr>lst := [0, 2]\<rparr>) B t5 = ((None, False), s4\<lparr>lst := [0, 2]\<rparr>)"
    unfolding Get_def e4 using ne by simp
  have gC': "fst (Get (s4\<lparr>lst := [0, 2]\<rparr>) C t5) = (vc, True)"
    unfolding Get_def e4 using ne live by (simp add: MoveToFront_def)
  have w4: "world s4 = called s0 B vb" unfolding e4 by simp
  show ?thesis
    unfolding g3 gA gB gC snd_conv gB' gC' fst_conv using l4 w4 by simp
qed

theorem lru_scenario_witness:
  "MaxLen \<lparr>MaxLen = 2, Callback = Some (\<lambda>k v w. w @ [(k, v)]), CacheTime = Minute\<rparr> = 2 \<and>
   (1::nat) \<noteq> 2 \<and> (1::nat) \<noteq> 3 \<and> (2::nat) \<noteq> 3 \<and>
   fst (Get (Put (snd (Get (Put (Put
      (NewCacheWithConfig \<lparr>MaxLen = 2, Callback = Some (\<lambda>k v w. w @ [(k, v)]), CacheTime = Minute\<rparr> [])
      (1::nat) (Some (10::nat)) 0) 2 (Some 20) 1) 1 2)) 3 (Some 30) 3) 1 4) = (Some 10, True) \<and>
   fst (Get (Put (snd (Get (Put (Put
      (NewCacheWithConfig \<lparr>MaxLen = 2, Callback = Some (\<lambda>k v w. w @ [(k, v)]), CacheTime = Minute\<rparr> [])
      (1::nat) (Some (10::nat)) 0) 2 (Some 20) 1) 1 2)) 3 (Some 30) 3) 2 4) = (None, False) \<and>
   fst (Get (Put (snd (Get (Put (Put
      (NewCacheWithConfig \<lparr>MaxLen = 2, Callback = Some (\<lambda>k v w. w @ [(k, v)]), CacheTime = Minute\<rparr> [])
      (1::nat) (Some (10::nat)) 0) 2 (Some 20) 1) 1 2)) 3 (Some 30) 3) 3 4) = (Some 30, True) \<and>
   world (Put (snd (Get (Put (Put
      (NewCacheWithConfig \<lparr>MaxLen = 2, Callback = Some (\<lambda>k v w. w @ [(k, v)]), CacheTime = Minute\<rparr> [])
      (1::nat) (Some (10::nat)) 0) 2 (Some 20) 1) 1 2)) 3 (Some 30) 3) = [(2, Some 20)]"
proof -
  let ?cfg = "\<lparr>MaxLen = 2, Callback = Some (\<lambda>k v w. w @ [(k, v)]), CacheTime = Minute\<rparr>
    :: (nat, nat, (nat \<times> nat option) list) Config"
  let ?s0 = "NewCacheWithConfig ?cfg []"
  have m: "MaxLen ?cfg = 2" by simp
  have ne: "(1::nat) \<noteq> 2" "(1::nat) \<noteq> 3" "(2::nat) \<noteq> 3" by simp_all
  have live: "\<not> 0 + max (cacheTime ?s0) Second < 2"
       "\<not> 0 + max (cacheTime ?s0) Second < 4"
       "\<not> 3 + max (cacheTime ?s0) Second < 4"
    by (simp_all add: eval_defs)
  have w: "called ?s0 2 (Some 20) = [(2, Some 20)]" by (simp add: eval_defs)
  note T = lru_scenario[OF m ne live, where va = "Some 10" and vb = "Some 20" and vc = "Some 30"
      and ?t2.0 = 1]
  from T w have "world (Put (snd (Get (Put (Put ?s0 1 (Some 10) 0) 2 (Some 20) 1) 1 2)) 3 (Some 30) 3)
      = [(2, Some 20)]"
    by simp
  with T show ?thesis by simp
qed

subsection \<open>C9: \<open>Close\<close>\<close>

text \<open>
  Claim C9. In every reachable state \<open>Close\<close> leaves the map and the list empty, so that
  \<open>Len\<close> is 0, and does not call the callback, however many entries it discards (the
  environment of the callback is unchanged). The cache stays usable: the closed cache
  differs from the cache \<open>NewCacheWithConfig\<close> constructs from the same configuration
  (in the same environment) only in the unreachable part of the heap and in the next
  address the allocator hands out, and every sequence of calls of \<open>Put\<close>,
  \<open>PutWithTimeout\<close>, \<open>Get\<close>, \<open>Del\<close>, \<open>Len\<close> and \<open>Close\<close> returns the same results and
  makes the same callback calls on both.
\<close>

theorem close_resets:
  assumes r: "reachable s"
  shows "hash (Close s) = fmempty \<and> lst (Close s) = [] \<and> Len (Close s) = 0 \<and>
         world (Close s) = world s \<and>
         reachable (Close s) \<and>
         NewCacheWithConfig \<lparr>MaxLen = maxLen s, Callback = onEvicted s, CacheTime = cacheTime s\<rparr> (world s) =
           (Close s)\<lparr>elems := fmempty, nextElem := 0\<rparr> \<and>
         (\<forall>cs.
            fst (do_calls (Close s) cs) =
              fst (do_calls (NewCacheWithConfig
                     \<lparr>MaxLen = maxLen s, Callback = onEvicted s, CacheTime = cacheTime s\<rparr> (world s)) cs) \<and>
            world (snd (do_calls (Close s) cs)) =
              world (snd (do_calls (NewCacheWithConfig
                     \<lparr>MaxLen = maxLen s, Callback = onEvicted s, CacheTime = cacheTime s\<rparr> (world s)) cs)))"
proof -
  let ?new = "NewCacheWithConfig
      \<lparr>MaxLen = maxLen s, Callback = onEvicted s, CacheTime = cacheTime s\<rparr> (world s)"
  have c: "hash (Close s) = fmempty" "lst (Close s) = []" "world (Close s) = world s"
    by (simp_all add: Close_def Init_def)
  from c(1) have l: "Len (Close s) = 0" by (simp add: Len_def len_hash_def)
  have rc: "reachable (Close s)" by (rule r_close[OF r])
  have eq: "?new = (Close s)\<lparr>elems := fmempty, nextElem := 0\<rparr>"
    using reachable_cacheTime[OF r] by (simp add: NewCacheWithConfig_def Close_def Init_def)
  have "fst (do_calls (Close s) cs) = fst (do_calls ?new cs) \<and>
        world (snd (do_calls (Close s) cs)) = world (snd (do_calls ?new cs))" for cs
    using same_view_do_calls[OF reachable_inv[OF rc] cache_inv_new same_view_Close_new[OF r], of cs]
    by (simp add: same_view_def)
  with c l rc eq show ?thesis by blast
qed

theorem close_resets_witness:
  "reachable (Put (Put
      (NewCacheWithConfig \<lparr>MaxLen = 2, Callback = Some (\<lambda>k v w. w @ [(k, v)]), CacheTime = Minute\<rparr> [])
      (1::nat) (Some (10::nat)) 0) 2 (Some 20) 5) \<and>
   Len (Put (Put
      (NewCacheWithConfig \<lparr>MaxLen = 2, Callback = Some (\<lambda>k v w. w @ [(k, v)]), CacheTime = Minute\<rparr> [])
      (1::nat) (Some (10::nat)) 0) 2 (Some 20) 5) = 2 \<and>
   Len (Close (Put (Put
      (NewCacheWithConfig \<lparr>MaxLen = 2, Callback = Some (\<lambda>k v w. w @ [(k, v)]), CacheTime = Minute\<rparr> [])
      (1::nat) (Some (10::nat)) 0) 2 (Some 20) 5)) = 0 \<and>
   world (Close (Put (Put
      (NewCacheWithConfig \<lparr>MaxLen = 2, Callback = Some (\<lambda>k v w. w @ [(k, v)]), CacheTime = Minute\<rparr> [])
      (1::nat) (Some (10::nat)) 0) 2 (Some 20) 5)) = [] \<and>
   fst (do_calls (Close (Put (Put
      (NewCacheWithConfig \<lparr>MaxLen = 2, Callback = Some (\<lambda>k v w. w @ [(k, v)]), CacheTime = Minute\<rparr> [])
      (1::nat) (Some (10::nat)) 0) 2 (Some 20) 5))
      [CallGet 1 6, CallPut 3 (Some 30) 7, CallGet 3 8, CallLen]) =
     [Got None False, Done, Got (Some 30) True, Length 1]"
proof -
  let ?s = "Put (Put
      (NewCacheWithConfig \<lparr>MaxLen = 2, Callback = Some (\<lambda>k v w. w @ [(k, v)]), CacheTime = Minute\<rparr> [])
      (1::nat) (Some (10::nat)) 0) 2 (Some 20) 5"
  have r: "reachable ?s" by (intro reachable.intros)
  have n: "Len ?s = 2" by (simp add: eval_defs)
  have w: "world ?s = []" by (simp add: eval_defs)
  have f: "maxLen ?s = 2" "onEvicted ?s = Some (\<lambda>k v w. w @ [(k, v)])" "cacheTime ?s = Minute"
    by (simp_all add: eval_defs)
  have d: "fst (do_calls (NewCacheWithConfig
      \<lparr>MaxLen = 2, Callback = Some (\<lambda>k v w. w @ [(k, v)]), CacheTime = Minute\<rparr> [])
      [CallGet (1::nat) 6, CallPut 3 (Some (30::nat)) 7, CallGet 3 8, CallLen]) =
     [Got None False, Done, Got (Some 30) True, Length 1]"
    by (simp add: eval_defs)
  note T = close_resets[OF r]
  from T have "Len (Close ?s) = 0" by blast
  moreover from T w have "world (Close ?s) = []" by simp
  moreover from T have "fst (do_calls (Close ?s) [CallGet 1 6, CallPut 3 (Some 30) 7, CallGet 3 8, CallLen]) =
      fst (do_calls (NewCacheWithConfig
        \<lparr>MaxLen = maxLen ?s, Callback = onEvicted ?s, CacheTime = cacheTime ?s\<rparr> (world ?s))
        [CallGet 1 6, CallPut 3 (Some 30) 7, CallGet 3 8, CallLen])"
    by blast
  then have "fst (do_calls (Close ?s) [CallGet 1 6, CallPut 3 (Some 30) 7, CallGet 3 8, CallLen]) =
     [Got None False, Done, Got (Some 30) True, Length 1]"
    unfolding f w d .
  ultimately show ?thesis using r n by blast
qed

end
